theory Spec2Isabelle
  imports Main "HOL-Library.Tree" "HOL-Library.Multiset"
begin

section \<open>Handles, errors and the graph collaborator\<close>

text \<open>
  The arc look-up classes of \<^verbatim>\<open>lemon/core.h\<close> are templates over a digraph type
  \<^verbatim>\<open>G\<close>.  An arc handle is either the sentinel \<^verbatim>\<open>INVALID\<close> or an identifier; a node
  handle is an identifier.  Nodes and arcs are different types, as in every LEMON digraph.
\<close>

datatype arc = INVALID | Arc nat

type_synonym node = nat

text \<open>
  The code has no exceptions of its own.  The two error values stand for the undefined
  behaviour the code can run into: \<open>InvalidArc\<close> is \<^verbatim>\<open>_g.source\<close> or \<^verbatim>\<open>_g.target\<close> applied
  to a handle that is not an arc of the graph (in particular to \<^verbatim>\<open>INVALID\<close>), and
  \<open>InvalidKey\<close> is an arc map subscripted with \<^verbatim>\<open>INVALID\<close>.
\<close>

datatype error = InvalidArc | InvalidKey

text \<open>
  Modelled from the spec: the Graph Source collaborator (the digraph type \<^verbatim>\<open>G\<close> is not
  part of the sources).  It exposes the enumeration of the nodes (\<^verbatim>\<open>NodeIt\<close>), per node the
  enumeration of its outgoing arcs (\<^verbatim>\<open>OutArcIt\<close>), the source and target accessors and the
  comparison \<^verbatim>\<open><\<close> of node identities.
\<close>

record graph =
  nodes :: "node list"
  outArcs :: "node \<Rightarrow> arc list"
  arc_source :: "arc \<Rightarrow> node"
  arc_target :: "arc \<Rightarrow> node"
  node_less :: "node \<Rightarrow> node \<Rightarrow> bool"

definition arcs :: "graph \<Rightarrow> arc list" where
  "arcs g = concat (map (outArcs g) (nodes g))"

definition valid_arc :: "graph \<Rightarrow> arc \<Rightarrow> bool" where
  "valid_arc g a \<longleftrightarrow> a \<noteq> INVALID \<and> a \<in> set (arcs g)"

definition source :: "graph \<Rightarrow> arc \<Rightarrow> error + node" where
  "source g a = (if valid_arc g a then Inr (arc_source g a) else Inl InvalidArc)"

definition target :: "graph \<Rightarrow> arc \<Rightarrow> error + node" where
  "target g a = (if valid_arc g a then Inr (arc_target g a) else Inl InvalidArc)"

text \<open>
  \<^verbatim>\<open>ArcLess\<close> (the same class in \<^verbatim>\<open>ArcLookUp\<close> and \<^verbatim>\<open>DynArcLookUp\<close>) compares two arcs by
  their targets.  It is only applied to the arcs an \<^verbatim>\<open>OutArcIt\<close> produced.
\<close>

definition ArcLess :: "graph \<Rightarrow> arc \<Rightarrow> arc \<Rightarrow> bool" where
  "ArcLess g a b = node_less g (arc_target g a) (arc_target g b)"

text \<open>
  Modelled from the spec: adding and erasing an arc in the graph.  A new arc is put in
  front of its source's list of outgoing arcs; an erased arc leaves that list.
\<close>

definition addArc :: "graph \<Rightarrow> arc \<Rightarrow> node \<Rightarrow> node \<Rightarrow> graph" where
  "addArc g a s t =
     g\<lparr>outArcs := (outArcs g)(s := a # outArcs g s),
       arc_source := (arc_source g)(a := s),
       arc_target := (arc_target g)(a := t)\<rparr>"

definition eraseArc :: "graph \<Rightarrow> arc \<Rightarrow> graph" where
  "eraseArc g a =
     g\<lparr>outArcs := (outArcs g)(arc_source g a := removeAll a (outArcs g (arc_source g a)))\<rparr>"

section \<open>ArcLookUp: the balanced static index\<close>

text \<open>
  \<^verbatim>\<open>_head\<close> is a node map, \<^verbatim>\<open>_left\<close> and \<^verbatim>\<open>_right\<close> are arc maps.  \<^verbatim>\<open>AllArcLookUp\<close> derives
  from \<^verbatim>\<open>ArcLookUp\<close> and adds \<^verbatim>\<open>_next\<close>; the record extension below mirrors that, and the
  functions of the base class work on every extension of the base record.
\<close>

record static_state =
  s_head :: "node \<Rightarrow> arc"
  s_left :: "arc \<Rightarrow> arc"
  s_right :: "arc \<Rightarrow> arc"

record all_state = static_state +
  s_next :: "arc \<Rightarrow> arc"

text \<open>
  The indices of \<^verbatim>\<open>refreshRec\<close> are of type \<^verbatim>\<open>int\<close>, 32 bits wide, and \<open>int_max\<close> is the
  largest of them.
\<close>

definition int_max :: nat where
  "int_max = 2147483647"

text \<open>
  \<^verbatim>\<open>refreshRec(v,a,b)\<close> roots the range \<^verbatim>\<open>v[a..b]\<close> at its median \<^verbatim>\<open>v[(a+b)/2]\<close>.  The
  indices are non-negative in every call (\<^verbatim>\<open>refresh\<close> starts with \<^verbatim>\<open>0\<close> and
  \<^verbatim>\<open>v.size()-1\<close> for a non-empty \<^verbatim>\<open>v\<close>, and the recursion stays inside the range).
  The sum \<^verbatim>\<open>a+b\<close> is computed in \<^verbatim>\<open>int\<close>: when it exceeds \<open>int_max\<close> the addition
  overflows, the behaviour of the code is undefined, and so is the value of the model.
\<close>

function static_refreshRec ::
  "arc list \<Rightarrow> nat \<Rightarrow> nat \<Rightarrow> 'z static_state_scheme \<Rightarrow> arc \<times> 'z static_state_scheme" where
  "static_refreshRec v a b st =
     (if int_max < a + b then undefined
      else
       (let m = (a + b) div 2;
            me = v ! m;
            (l, st) = (if a < m then static_refreshRec v a (m - 1) st else (INVALID, st));
            st = st\<lparr>s_left := (s_left st)(me := l)\<rparr>;
            (r, st) = (if m < b then static_refreshRec v (m + 1) b st else (INVALID, st));
            st = st\<lparr>s_right := (s_right st)(me := r)\<rparr>
        in (me, st)))"
  by pat_completeness auto
termination
  by (relation "measure (\<lambda>(v, a, b, st). b - a)") auto

declare static_refreshRec.simps [simp del]

text \<open>
  \<^verbatim>\<open>refresh(Node n)\<close>: the outgoing arcs of \<^verbatim>\<open>n\<close> are collected, sorted with
  \<^verbatim>\<open>std::sort\<close> and \<^verbatim>\<open>ArcLess\<close>, and rebuilt.  \<^verbatim>\<open>std::sort\<close> is the parameter \<open>srt\<close>:
  the function from the collected vector to the sorted one.
\<close>

definition static_refresh_node ::
  "(arc list \<Rightarrow> arc list) \<Rightarrow> graph \<Rightarrow> 'z static_state_scheme \<Rightarrow> node \<Rightarrow> 'z static_state_scheme" where
  "static_refresh_node srt g st n =
     (let v = srt (outArcs g n) in
      if v \<noteq> [] then
        (let (h, st) = static_refreshRec v 0 (length v - 1) st
         in st\<lparr>s_head := (s_head st)(n := h)\<rparr>)
      else st\<lparr>s_head := (s_head st)(n := INVALID)\<rparr>)"

definition static_refresh ::
  "(arc list \<Rightarrow> arc list) \<Rightarrow> graph \<Rightarrow> 'z static_state_scheme \<Rightarrow> 'z static_state_scheme" where
  "static_refresh srt g st = foldl (static_refresh_node srt g) st (nodes g)"

text \<open>
  \<^verbatim>\<open>operator()(s,t)\<close>: the descent.  On an arbitrary state the loop need not end, so not
  returning is the value \<open>None\<close>.
\<close>

partial_function (option) static_lookup_loop ::
  "graph \<Rightarrow> 'z static_state_scheme \<Rightarrow> node \<Rightarrow> arc \<Rightarrow> (error + arc) option" where
  "static_lookup_loop g st t e =
     (if e = INVALID then Some (Inr e)
      else case target g e of
        Inl err \<Rightarrow> Some (Inl err)
      | Inr te \<Rightarrow>
          if te = t then Some (Inr e)
          else static_lookup_loop g st t (if node_less g t te then s_left st e else s_right st e))"

declare static_lookup_loop.simps [code]

definition static_lookup ::
  "graph \<Rightarrow> 'z static_state_scheme \<Rightarrow> node \<Rightarrow> node \<Rightarrow> (error + arc) option" where
  "static_lookup g st s t = static_lookup_loop g st t (s_head st s)"

section \<open>AllArcLookUp: the parallel-arc extension\<close>

text \<open>
  \<^verbatim>\<open>refreshNext(head,next)\<close> walks a tree from right to left and records for every arc
  the arc visited just before it when both have the same target.
\<close>

partial_function (option) refreshNext ::
  "graph \<Rightarrow> all_state \<Rightarrow> arc \<Rightarrow> arc \<Rightarrow> (error + arc \<times> all_state) option" where
  "refreshNext g st head nxt =
     (if head = INVALID then Some (Inr (nxt, st))
      else Option.bind (refreshNext g st (s_right st head) nxt) (\<lambda>r.
        case r of
          Inl err \<Rightarrow> Some (Inl err)
        | Inr (nxt, st) \<Rightarrow>
            if nxt \<noteq> INVALID then
              (case target g nxt of
                 Inl err \<Rightarrow> Some (Inl err)
               | Inr tn \<Rightarrow>
                  (case target g head of
                     Inl err \<Rightarrow> Some (Inl err)
                   | Inr th \<Rightarrow>
                       refreshNext g
                         (st\<lparr>s_next := (s_next st)(head := (if tn = th then nxt else INVALID))\<rparr>)
                         (s_left st head) head))
            else refreshNext g (st\<lparr>s_next := (s_next st)(head := INVALID)\<rparr>) (s_left st head) head))"

declare refreshNext.simps [code]

text \<open>\<^verbatim>\<open>refreshNext()\<close>: one walk per node, from the node's root.\<close>

fun refreshNext_nodes :: "graph \<Rightarrow> all_state \<Rightarrow> node list \<Rightarrow> (error + all_state) option" where
  "refreshNext_nodes g st [] = Some (Inr st)"
| "refreshNext_nodes g st (n # ns) =
     (case refreshNext g st (s_head st n) INVALID of
        None \<Rightarrow> None
      | Some (Inl err) \<Rightarrow> Some (Inl err)
      | Some (Inr (r, st)) \<Rightarrow> refreshNext_nodes g st ns)"

text \<open>
  The constructor \<^verbatim>\<open>AllArcLookUp(g) : ArcLookUp<G>(g), _next(g) {refreshNext();}\<close>: the
  base class constructor runs \<^verbatim>\<open>ArcLookUp::refresh()\<close>, then all chains are built.  The
  maps start with unspecified contents, the argument \<open>st\<close>.

  The member \<^verbatim>\<open>AllArcLookUp::refresh()\<close> calls \<^verbatim>\<open>refresh(_head[n])\<close>, that is, it passes an
  arc where \<^verbatim>\<open>refresh(Node)\<close> wants a node.  Arcs are not nodes, so this member has no
  instance and no definition here; the full rebuild of the extension is the constructor's.
\<close>

definition AllArcLookUp :: "(arc list \<Rightarrow> arc list) \<Rightarrow> graph \<Rightarrow> all_state \<Rightarrow> (error + all_state) option" where
  "AllArcLookUp srt g st = refreshNext_nodes g (static_refresh srt g st) (nodes g)"

text \<open>\<^verbatim>\<open>AllArcLookUp::refresh(Node n)\<close>.\<close>

definition all_refresh_node ::
  "(arc list \<Rightarrow> arc list) \<Rightarrow> graph \<Rightarrow> all_state \<Rightarrow> node \<Rightarrow> (error + all_state) option" where
  "all_refresh_node srt g st n =
     (let st = static_refresh_node srt g st n in
      case refreshNext g st (s_head st n) INVALID of
        None \<Rightarrow> None
      | Some (Inl err) \<Rightarrow> Some (Inl err)
      | Some (Inr (r, st)) \<Rightarrow> Some (Inr st))"

text \<open>\<^verbatim>\<open>operator()(s,t,prev)\<close>.\<close>

definition all_lookup ::
  "graph \<Rightarrow> all_state \<Rightarrow> node \<Rightarrow> node \<Rightarrow> arc \<Rightarrow> (error + arc) option" where
  "all_lookup g st s t prev =
     (if prev = INVALID then static_lookup g st s t else Some (Inr (s_next st prev)))"

section \<open>DynArcLookUp: the self-adjusting dynamic index\<close>

record dyn_state =
  d_head :: "node \<Rightarrow> arc"
  d_parent :: "arc \<Rightarrow> arc"
  d_left :: "arc \<Rightarrow> arc"
  d_right :: "arc \<Rightarrow> arc"

text \<open>The map writes \<^verbatim>\<open>_head.set\<close>, \<^verbatim>\<open>_parent.set\<close>, \<^verbatim>\<open>_left.set\<close> and \<^verbatim>\<open>_right.set\<close>.\<close>

definition head_set :: "dyn_state \<Rightarrow> node \<Rightarrow> arc \<Rightarrow> dyn_state" where
  "head_set st n a = st\<lparr>d_head := (d_head st)(n := a)\<rparr>"

definition parent_set :: "dyn_state \<Rightarrow> arc \<Rightarrow> arc \<Rightarrow> dyn_state" where
  "parent_set st k a = st\<lparr>d_parent := (d_parent st)(k := a)\<rparr>"

definition left_set :: "dyn_state \<Rightarrow> arc \<Rightarrow> arc \<Rightarrow> dyn_state" where
  "left_set st k a = st\<lparr>d_left := (d_left st)(k := a)\<rparr>"

definition right_set :: "dyn_state \<Rightarrow> arc \<Rightarrow> arc \<Rightarrow> dyn_state" where
  "right_set st k a = st\<lparr>d_right := (d_right st)(k := a)\<rparr>"

subsection \<open>Rotations and splaying\<close>

text \<open>
  In \<^verbatim>\<open>zig(v)\<close> and \<^verbatim>\<open>zag(v)\<close> the keys of all map accesses are \<^verbatim>\<open>v\<close>, \<^verbatim>\<open>w = _parent[v]\<close>
  and handles tested against \<^verbatim>\<open>INVALID\<close> just before; so a map is subscripted with
  \<^verbatim>\<open>INVALID\<close> exactly when \<^verbatim>\<open>v\<close> or \<^verbatim>\<open>w\<close> is \<^verbatim>\<open>INVALID\<close>.
\<close>

definition zig :: "dyn_state \<Rightarrow> arc \<Rightarrow> error + dyn_state" where
  "zig st v =
     (if v = INVALID \<or> d_parent st v = INVALID then Inl InvalidKey
      else
        let w = d_parent st v;
            st = parent_set st v (d_parent st w);
            st = parent_set st w v;
            st = left_set st w (d_right st v);
            st = right_set st v w;
            st = (if d_parent st v \<noteq> INVALID then
                    (if d_right st (d_parent st v) = w
                     then right_set st (d_parent st v) v
                     else left_set st (d_parent st v) v)
                  else st);
            st = (if d_left st w \<noteq> INVALID then parent_set st (d_left st w) w else st)
        in Inr st)"

definition zag :: "dyn_state \<Rightarrow> arc \<Rightarrow> error + dyn_state" where
  "zag st v =
     (if v = INVALID \<or> d_parent st v = INVALID then Inl InvalidKey
      else
        let w = d_parent st v;
            st = parent_set st v (d_parent st w);
            st = parent_set st w v;
            st = right_set st w (d_left st v);
            st = left_set st v w;
            st = (if d_parent st v \<noteq> INVALID then
                    (if d_left st (d_parent st v) = w
                     then left_set st (d_parent st v) v
                     else right_set st (d_parent st v) v)
                  else st);
            st = (if d_right st w \<noteq> INVALID then parent_set st (d_right st w) w else st)
        in Inr st)"

text \<open>One round of the loop of \<^verbatim>\<open>splay(v)\<close>; the loop has tested \<^verbatim>\<open>_parent[v] != INVALID\<close>.\<close>

definition splay_step :: "dyn_state \<Rightarrow> arc \<Rightarrow> error + dyn_state" where
  "splay_step st v =
     (if v = d_left st (d_parent st v) then
        (if d_parent st (d_parent st v) = INVALID then zig st v
         else if d_parent st v = d_left st (d_parent st (d_parent st v)) then
           (case zig st (d_parent st v) of Inl err \<Rightarrow> Inl err | Inr st \<Rightarrow> zig st v)
         else
           (case zig st v of Inl err \<Rightarrow> Inl err | Inr st \<Rightarrow> zag st v))
      else
        (if d_parent st (d_parent st v) = INVALID then zag st v
         else if d_parent st v = d_left st (d_parent st (d_parent st v)) then
           (case zag st v of Inl err \<Rightarrow> Inl err | Inr st \<Rightarrow> zig st v)
         else
           (case zag st (d_parent st v) of Inl err \<Rightarrow> Inl err | Inr st \<Rightarrow> zag st v)))"

partial_function (option) splay_loop :: "dyn_state \<Rightarrow> arc \<Rightarrow> (error + dyn_state) option" where
  "splay_loop st v =
     (if v = INVALID then Some (Inl InvalidKey)
      else if d_parent st v = INVALID then Some (Inr st)
      else case splay_step st v of
        Inl err \<Rightarrow> Some (Inl err)
      | Inr st \<Rightarrow> splay_loop st v)"

declare splay_loop.simps [code]

definition splay :: "graph \<Rightarrow> dyn_state \<Rightarrow> arc \<Rightarrow> (error + dyn_state) option" where
  "splay g st v =
     (case splay_loop st v of
        None \<Rightarrow> None
      | Some (Inl err) \<Rightarrow> Some (Inl err)
      | Some (Inr st) \<Rightarrow>
         (case source g v of
            Inl err \<Rightarrow> Some (Inl err)
          | Inr s \<Rightarrow> Some (Inr (head_set st s v))))"

text \<open>\<^verbatim>\<open>splay(a); return r;\<close> as the look-ups end.\<close>

definition splay_return :: "graph \<Rightarrow> dyn_state \<Rightarrow> arc \<Rightarrow> arc \<Rightarrow> (error + arc \<times> dyn_state) option" where
  "splay_return g st a r =
     (case splay g st a of
        None \<Rightarrow> None
      | Some (Inl err) \<Rightarrow> Some (Inl err)
      | Some (Inr st) \<Rightarrow> Some (Inr (r, st)))"

subsection \<open>Insertion and removal\<close>

partial_function (option) insert_loop ::
  "graph \<Rightarrow> dyn_state \<Rightarrow> arc \<Rightarrow> node \<Rightarrow> arc \<Rightarrow> (error + dyn_state) option" where
  "insert_loop g st arc t e =
     (case target g e of
        Inl err \<Rightarrow> Some (Inl err)
      | Inr te \<Rightarrow>
          if node_less g t te then
            (if d_left st e = INVALID then
               splay g (parent_set (left_set st e arc) arc e) arc
             else insert_loop g st arc t (d_left st e))
          else
            (if d_right st e = INVALID then
               splay g (parent_set (right_set st e arc) arc e) arc
             else insert_loop g st arc t (d_right st e)))"

declare insert_loop.simps [code]

definition insert_arc :: "graph \<Rightarrow> dyn_state \<Rightarrow> arc \<Rightarrow> (error + dyn_state) option" where
  "insert_arc g st arc =
     (case source g arc of
        Inl err \<Rightarrow> Some (Inl err)
      | Inr s \<Rightarrow>
         (case target g arc of
            Inl err \<Rightarrow> Some (Inl err)
          | Inr t \<Rightarrow>
              let st = left_set st arc INVALID;
                  st = right_set st arc INVALID;
                  e = d_head st s
              in if e = INVALID then Some (Inr (parent_set (head_set st s arc) arc INVALID))
                 else insert_loop g st arc t e))"

text \<open>\<^verbatim>\<open>while (_right[e] != INVALID) e = _right[e];\<close>\<close>

partial_function (option) rightmost :: "dyn_state \<Rightarrow> arc \<Rightarrow> arc option" where
  "rightmost st e = (if d_right st e \<noteq> INVALID then rightmost st (d_right st e) else Some e)"

declare rightmost.simps [code]

text \<open>
  The replacement of the child slot of \<^verbatim>\<open>_parent[arc]\<close> that held \<^verbatim>\<open>arc\<close>, written four times
  in \<^verbatim>\<open>remove\<close>; the caller has tested \<^verbatim>\<open>_parent[arc] != INVALID\<close>.
\<close>

definition replace_child :: "dyn_state \<Rightarrow> arc \<Rightarrow> arc \<Rightarrow> dyn_state" where
  "replace_child st arc c =
     (if d_left st (d_parent st arc) = arc then left_set st (d_parent st arc) c
      else right_set st (d_parent st arc) c)"

text \<open>
  \<^verbatim>\<open>remove(arc)\<close>.  The graph notifies before it erases, so \<^verbatim>\<open>arc\<close> is still an arc of
  \<open>g\<close>.  In the branch that moves the rightmost arc \<^verbatim>\<open>e\<close> of the left subtree, the keys
  \<^verbatim>\<open>_parent[e]\<close> and (after the first write) \<^verbatim>\<open>_right[arc]\<close> are not tested by the code.
\<close>

definition remove :: "graph \<Rightarrow> dyn_state \<Rightarrow> arc \<Rightarrow> (error + dyn_state) option" where
  "remove g st arc =
     (if arc = INVALID then Some (Inl InvalidKey)
      else if d_left st arc = INVALID then
        (let st = (if d_right st arc \<noteq> INVALID
                   then parent_set st (d_right st arc) (d_parent st arc) else st)
         in if d_parent st arc \<noteq> INVALID then Some (Inr (replace_child st arc (d_right st arc)))
            else (case source g arc of
                    Inl err \<Rightarrow> Some (Inl err)
                  | Inr s \<Rightarrow> Some (Inr (head_set st s (d_right st arc)))))
      else if d_right st arc = INVALID then
        (let st = parent_set st (d_left st arc) (d_parent st arc)
         in if d_parent st arc \<noteq> INVALID then Some (Inr (replace_child st arc (d_left st arc)))
            else (case source g arc of
                    Inl err \<Rightarrow> Some (Inl err)
                  | Inr s \<Rightarrow> Some (Inr (head_set st s (d_left st arc)))))
      else
        (let e = d_left st arc in
         if d_right st e \<noteq> INVALID then
           (case rightmost st (d_right st e) of
              None \<Rightarrow> None
            | Some e \<Rightarrow>
                let s = d_parent st e in
                if s = INVALID then Some (Inl InvalidKey)
                else
                  let st = right_set st (d_parent st e) (d_left st e);
                      st = (if d_left st e \<noteq> INVALID
                            then parent_set st (d_left st e) (d_parent st e) else st);
                      st = left_set st e (d_left st arc);
                      st = parent_set st (d_left st arc) e;
                      st = right_set st e (d_right st arc)
                  in if d_right st arc = INVALID then Some (Inl InvalidKey)
                     else
                       let st = parent_set st (d_right st arc) e;
                           st = parent_set st e (d_parent st arc);
                           st = (if d_parent st arc \<noteq> INVALID
                                 then replace_child st arc e else st)
                       in splay g st s)
         else
           (let st = right_set st e (d_right st arc);
                st = parent_set st (d_right st arc) e
            in if d_parent st arc \<noteq> INVALID then Some (Inr (replace_child st arc e))
               else (case source g arc of
                       Inl err \<Rightarrow> Some (Inl err)
                     | Inr s \<Rightarrow> Some (Inr (head_set st s e))))))"

subsection \<open>Rebuilding\<close>

text \<open>
  \<^verbatim>\<open>refreshRec(v,a,b)\<close> of the dynamic index, with the same \<^verbatim>\<open>int m=(a+b)/2\<close>: the value
  is undefined when the sum exceeds \<open>int_max\<close>.
\<close>

function dyn_refreshRec :: "arc list \<Rightarrow> nat \<Rightarrow> nat \<Rightarrow> dyn_state \<Rightarrow> arc \<times> dyn_state" where
  "dyn_refreshRec v a b st =
     (if int_max < a + b then undefined
      else
       (let m = (a + b) div 2;
            me = v ! m;
            st = (if a < m then
                    (let (l, st) = dyn_refreshRec v a (m - 1) st;
                         st = left_set st me l
                     in parent_set st l me)
                  else left_set st me INVALID);
            st = (if m < b then
                    (let (r, st) = dyn_refreshRec v (m + 1) b st;
                         st = right_set st me r
                     in parent_set st r me)
                  else right_set st me INVALID)
        in (me, st)))"
  by pat_completeness auto
termination
  by (relation "measure (\<lambda>(v, a, b, st). b - a)") auto

declare dyn_refreshRec.simps [simp del]

definition dyn_refresh_node ::
  "(arc list \<Rightarrow> arc list) \<Rightarrow> graph \<Rightarrow> dyn_state \<Rightarrow> node \<Rightarrow> dyn_state" where
  "dyn_refresh_node srt g st n =
     (let v = srt (outArcs g n) in
      if v \<noteq> [] then
        (let (h, st) = dyn_refreshRec v 0 (length v - 1) st;
             st = head_set st n h
         in parent_set st h INVALID)
      else head_set st n INVALID)"

definition dyn_refresh :: "(arc list \<Rightarrow> arc list) \<Rightarrow> graph \<Rightarrow> dyn_state \<Rightarrow> dyn_state" where
  "dyn_refresh srt g st = foldl (dyn_refresh_node srt g) st (nodes g)"

text \<open>
  The constructor: \<^verbatim>\<open>_head(g)\<close> is an \<^verbatim>\<open>AutoNodeMap\<close>, filled with \<^verbatim>\<open>INVALID\<close>; the arc maps
  start with unspecified contents (those of \<open>st\<close>); then \<^verbatim>\<open>refresh()\<close>.
\<close>

definition DynArcLookUp :: "(arc list \<Rightarrow> arc list) \<Rightarrow> graph \<Rightarrow> dyn_state \<Rightarrow> dyn_state" where
  "DynArcLookUp srt g st = dyn_refresh srt g (st\<lparr>d_head := (\<lambda>n. INVALID)\<rparr>)"

subsection \<open>The notifications of the graph\<close>

definition add :: "graph \<Rightarrow> dyn_state \<Rightarrow> arc \<Rightarrow> (error + dyn_state) option" where
  "add g st arc = insert_arc g st arc"

fun add_batch :: "graph \<Rightarrow> dyn_state \<Rightarrow> arc list \<Rightarrow> (error + dyn_state) option" where
  "add_batch g st [] = Some (Inr st)"
| "add_batch g st (a # as) =
     (case insert_arc g st a of
        None \<Rightarrow> None
      | Some (Inl err) \<Rightarrow> Some (Inl err)
      | Some (Inr st) \<Rightarrow> add_batch g st as)"

definition erase :: "graph \<Rightarrow> dyn_state \<Rightarrow> arc \<Rightarrow> (error + dyn_state) option" where
  "erase g st arc = remove g st arc"

fun erase_batch :: "graph \<Rightarrow> dyn_state \<Rightarrow> arc list \<Rightarrow> (error + dyn_state) option" where
  "erase_batch g st [] = Some (Inr st)"
| "erase_batch g st (a # as) =
     (case remove g st a of
        None \<Rightarrow> None
      | Some (Inl err) \<Rightarrow> Some (Inl err)
      | Some (Inr st) \<Rightarrow> erase_batch g st as)"

definition build :: "(arc list \<Rightarrow> arc list) \<Rightarrow> graph \<Rightarrow> dyn_state \<Rightarrow> dyn_state" where
  "build srt g st = dyn_refresh srt g st"

definition clear :: "graph \<Rightarrow> dyn_state \<Rightarrow> dyn_state" where
  "clear g st = foldl (\<lambda>st n. head_set st n INVALID) st (nodes g)"

subsection \<open>Queries\<close>

partial_function (option) lookup_loop ::
  "graph \<Rightarrow> dyn_state \<Rightarrow> node \<Rightarrow> arc \<Rightarrow> (error + arc \<times> dyn_state) option" where
  "lookup_loop g st t a =
     (case target g a of
        Inl err \<Rightarrow> Some (Inl err)
      | Inr ta \<Rightarrow>
          if ta = t then splay_return g st a a
          else if node_less g t ta then
            (if d_left st a = INVALID then splay_return g st a INVALID
             else lookup_loop g st t (d_left st a))
          else
            (if d_right st a = INVALID then splay_return g st a INVALID
             else lookup_loop g st t (d_right st a)))"

declare lookup_loop.simps [code]

text \<open>\<^verbatim>\<open>operator()(s,t)\<close> of \<^verbatim>\<open>DynArcLookUp\<close>: the arc found and the state after splaying.\<close>

definition lookup :: "graph \<Rightarrow> dyn_state \<Rightarrow> node \<Rightarrow> node \<Rightarrow> (error + arc \<times> dyn_state) option" where
  "lookup g st s t = lookup_loop g st t (d_head st s)"

partial_function (option) findFirst_loop ::
  "graph \<Rightarrow> dyn_state \<Rightarrow> node \<Rightarrow> arc \<Rightarrow> arc \<Rightarrow> (error + arc \<times> dyn_state) option" where
  "findFirst_loop g st t a r =
     (case target g a of
        Inl err \<Rightarrow> Some (Inl err)
      | Inr ta \<Rightarrow>
          if node_less g ta t then
            (if d_right st a = INVALID then splay_return g st a r
             else findFirst_loop g st t (d_right st a) r)
          else
            (let r = (if ta = t then a else r) in
             if d_left st a = INVALID then splay_return g st a r
             else findFirst_loop g st t (d_left st a) r))"

declare findFirst_loop.simps [code]

definition findFirst :: "graph \<Rightarrow> dyn_state \<Rightarrow> node \<Rightarrow> node \<Rightarrow> (error + arc \<times> dyn_state) option" where
  "findFirst g st s t = findFirst_loop g st t (d_head st s) INVALID"

text \<open>\<^verbatim>\<open>while (_left[a] != INVALID) a = _left[a];\<close>\<close>

partial_function (option) leftmost :: "dyn_state \<Rightarrow> arc \<Rightarrow> arc option" where
  "leftmost st a = (if d_left st a \<noteq> INVALID then leftmost st (d_left st a) else Some a)"

declare leftmost.simps [code]

text \<open>\<^verbatim>\<open>while (_parent[a] != INVALID && _right[_parent[a]] == a) a = _parent[a];\<close>\<close>

partial_function (option) climb :: "dyn_state \<Rightarrow> arc \<Rightarrow> arc option" where
  "climb st a =
     (if d_parent st a \<noteq> INVALID \<and> d_right st (d_parent st a) = a
      then climb st (d_parent st a) else Some a)"

declare climb.simps [code]

text \<open>\<^verbatim>\<open>if (_g.target(a) == t) return a; else return INVALID;\<close>\<close>

definition same_target :: "graph \<Rightarrow> dyn_state \<Rightarrow> node \<Rightarrow> arc \<Rightarrow> error + arc \<times> dyn_state" where
  "same_target g st t a =
     (case target g a of
        Inl err \<Rightarrow> Inl err
      | Inr ta \<Rightarrow> Inr (if ta = t then a else INVALID, st))"

text \<open>\<^verbatim>\<open>findNext(s,t,a)\<close>; the source node is not used by the code.\<close>

definition findNext :: "graph \<Rightarrow> dyn_state \<Rightarrow> node \<Rightarrow> arc \<Rightarrow> (error + arc \<times> dyn_state) option" where
  "findNext g st t a =
     (if a = INVALID then Some (Inl InvalidKey)
      else if d_right st a \<noteq> INVALID then
        (case leftmost st (d_right st a) of
           None \<Rightarrow> None
         | Some a \<Rightarrow>
            (case splay g st a of
               None \<Rightarrow> None
             | Some (Inl err) \<Rightarrow> Some (Inl err)
             | Some (Inr st) \<Rightarrow> Some (same_target g st t a)))
      else
        (case climb st a of
           None \<Rightarrow> None
         | Some a \<Rightarrow>
            if d_parent st a = INVALID then Some (Inr (INVALID, st))
            else
              (let a = d_parent st a in
               case splay g st a of
                 None \<Rightarrow> None
               | Some (Inl err) \<Rightarrow> Some (Inl err)
               | Some (Inr st) \<Rightarrow> Some (same_target g st t a))))"

section \<open>The graph drives the dynamic index\<close>

text \<open>
  Modelled from the spec: the synchronous notification feed.  The graph adds an arc and
  then notifies \<^verbatim>\<open>add\<close>; it notifies \<^verbatim>\<open>erase\<close> and then erases the arc.
\<close>

datatype event = AddArc arc node node | EraseArc arc

fun notify :: "graph \<times> dyn_state \<Rightarrow> event \<Rightarrow> (error + graph \<times> dyn_state) option" where
  "notify (g, st) (AddArc a s t) =
     (case add (addArc g a s t) st a of
        None \<Rightarrow> None
      | Some (Inl err) \<Rightarrow> Some (Inl err)
      | Some (Inr st') \<Rightarrow> Some (Inr (addArc g a s t, st')))"
| "notify (g, st) (EraseArc a) =
     (case erase g st a of
        None \<Rightarrow> None
      | Some (Inl err) \<Rightarrow> Some (Inl err)
      | Some (Inr st') \<Rightarrow> Some (Inr (eraseArc g a, st')))"

fun run :: "graph \<times> dyn_state \<Rightarrow> event list \<Rightarrow> (error + graph \<times> dyn_state) option" where
  "run c [] = Some (Inr c)"
| "run c (e # es) =
     (case notify c e of
        None \<Rightarrow> None
      | Some (Inl err) \<Rightarrow> Some (Inl err)
      | Some (Inr c') \<Rightarrow> run c' es)"

text \<open>The arc a query returned, without the state.\<close>

definition returned :: "(error + arc \<times> dyn_state) option \<Rightarrow> (error + arc) option" where
  "returned r = map_option (map_sum id fst) r"

section \<open>Trees behind the maps\<close>

text \<open>
  \<open>tree_at l r a T\<close>: following the child maps \<open>l\<close> and \<open>r\<close> from the handle \<open>a\<close> one
  finds exactly the binary tree \<open>T\<close> of arcs.  \<open>ptree_at\<close> also checks the parent map:
  the root of the tree has parent \<open>p\<close>, every other arc its father in the tree.
\<close>

fun tree_at :: "(arc \<Rightarrow> arc) \<Rightarrow> (arc \<Rightarrow> arc) \<Rightarrow> arc \<Rightarrow> arc tree \<Rightarrow> bool" where
  "tree_at l r a Leaf = (a = INVALID)"
| "tree_at l r a (Node lt x rt) =
     (a = x \<and> x \<noteq> INVALID \<and> tree_at l r (l x) lt \<and> tree_at l r (r x) rt)"

fun ptree_at :: "dyn_state \<Rightarrow> arc \<Rightarrow> arc \<Rightarrow> arc tree \<Rightarrow> bool" where
  "ptree_at st p a Leaf = (a = INVALID)"
| "ptree_at st p a (Node lt x rt) =
     (a = x \<and> x \<noteq> INVALID \<and> d_parent st x = p \<and>
      ptree_at st x (d_left st x) lt \<and> ptree_at st x (d_right st x) rt)"

text \<open>The arcs reachable from the root table entry of a node along the child maps.\<close>

inductive_set tree_arcs :: "dyn_state \<Rightarrow> node \<Rightarrow> arc set" for st :: dyn_state and n :: node where
  root: "d_head st n \<noteq> INVALID \<Longrightarrow> d_head st n \<in> tree_arcs st n"
| left: "a \<in> tree_arcs st n \<Longrightarrow> d_left st a \<noteq> INVALID \<Longrightarrow> d_left st a \<in> tree_arcs st n"
| right: "a \<in> tree_arcs st n \<Longrightarrow> d_right st a \<noteq> INVALID \<Longrightarrow> d_right st a \<in> tree_arcs st n"

text \<open>
  The order of a search tree by target.  In the strict reading every arc of a left
  subtree has a smaller target than the root of the subtree; in the other reading it has
  a target that is not greater.  In both, no arc of a right subtree has a smaller target
  than the root.
\<close>

fun search_tree_strict :: "graph \<Rightarrow> arc tree \<Rightarrow> bool" where
  "search_tree_strict g Leaf = True"
| "search_tree_strict g (Node l x r) =
     ((\<forall>y \<in> set_tree l. node_less g (arc_target g y) (arc_target g x)) \<and>
      (\<forall>y \<in> set_tree r. \<not> node_less g (arc_target g y) (arc_target g x)) \<and>
      search_tree_strict g l \<and> search_tree_strict g r)"

fun search_tree :: "graph \<Rightarrow> arc tree \<Rightarrow> bool" where
  "search_tree g Leaf = True"
| "search_tree g (Node l x r) =
     ((\<forall>y \<in> set_tree l. \<not> node_less g (arc_target g x) (arc_target g y)) \<and>
      (\<forall>y \<in> set_tree r. \<not> node_less g (arc_target g y) (arc_target g x)) \<and>
      search_tree g l \<and> search_tree g r)"

text \<open>
  Parent and child maps agree on the arcs of the graph: \<open>x\<close> is recorded as the parent of
  \<open>c\<close> exactly when \<open>c\<close> is in one and only one child slot of \<open>x\<close>.
\<close>

definition parent_child_consistent :: "graph \<Rightarrow> dyn_state \<Rightarrow> bool" where
  "parent_child_consistent g st =
     list_all (\<lambda>x. list_all (\<lambda>c.
         (d_parent st c = x) = ((d_left st x = c) \<noteq> (d_right st x = c))) (arcs g)) (arcs g)"

section \<open>Well-formed graphs and sorting\<close>

text \<open>
  The enumerations of a graph list every node once and every arc once, under its source,
  and never the sentinel.
\<close>

definition wf_graph :: "graph \<Rightarrow> bool" where
  "wf_graph g \<longleftrightarrow>
     distinct (nodes g) \<and> distinct (arcs g) \<and> INVALID \<notin> set (arcs g) \<and>
     (\<forall>n \<in> set (nodes g). \<forall>a \<in> set (outArcs g n). arc_source g a = n)"

text \<open>
  No node has so many outgoing arcs that a sum of two indices of its vector exceeds
  \<open>int_max\<close>: the largest sum \<^verbatim>\<open>refreshRec\<close> forms is that of the last index with itself.
  This holds of every node with at most \<open>2 ^ 30\<close> outgoing arcs.
\<close>

definition fits_int :: "graph \<Rightarrow> bool" where
  "fits_int g \<longleftrightarrow> (\<forall>n \<in> set (nodes g). 2 * (length (outArcs g n) - 1) \<le> int_max)"

text \<open>
  What \<^verbatim>\<open>std::sort\<close> promises: the result is a permutation of the input, and no element
  is smaller (by \<^verbatim>\<open>ArcLess\<close>) than an element before it.
\<close>

definition permutes :: "(arc list \<Rightarrow> arc list) \<Rightarrow> bool" where
  "permutes srt \<longleftrightarrow> (\<forall>xs. mset (srt xs) = mset xs)"

definition sorts_with :: "graph \<Rightarrow> (arc list \<Rightarrow> arc list) \<Rightarrow> bool" where
  "sorts_with g srt \<longleftrightarrow>
     permutes srt \<and> (\<forall>xs. sorted_wrt (\<lambda>a b. \<not> ArcLess g b a) (srt xs))"

text \<open>A sorting function for the usual order of node identifiers.\<close>

definition sort_by_target :: "graph \<Rightarrow> arc list \<Rightarrow> arc list" where
  "sort_by_target g = sort_key (arc_target g)"

section \<open>Example graphs\<close>

text \<open>\<open>fan k\<close>: the nodes \<open>0..k\<close> and the arcs \<open>Arc i\<close> from node \<open>0\<close> to node \<open>i + 1\<close>, \<open>i < k\<close>.\<close>

definition fan :: "nat \<Rightarrow> graph" where
  "fan k =
     \<lparr>nodes = [0..<Suc k],
      outArcs = (\<lambda>n. if n = 0 then map Arc [0..<k] else []),
      arc_source = (\<lambda>a. 0),
      arc_target = (\<lambda>a. case a of INVALID \<Rightarrow> 0 | Arc i \<Rightarrow> Suc i),
      node_less = (<)\<rparr>"

text \<open>\<open>parallel k\<close>: two nodes and \<open>k\<close> arcs from node \<open>0\<close> to node \<open>1\<close>.\<close>

definition parallel :: "nat \<Rightarrow> graph" where
  "parallel k =
     \<lparr>nodes = [0, 1],
      outArcs = (\<lambda>n. if n = 0 then map Arc [0..<k] else []),
      arc_source = (\<lambda>a. 0),
      arc_target = (\<lambda>a. 1),
      node_less = (<)\<rparr>"

text \<open>
  \<open>halves\<close>: the arcs \<open>Arc 0\<close>, \<open>Arc 1\<close>, \<open>Arc 2\<close> from node \<open>0\<close> to the nodes \<open>2\<close>, \<open>3\<close>, \<open>4\<close>,
  with node identifiers compared by their halves: the nodes \<open>2\<close> and \<open>3\<close> are different and
  neither is smaller.
\<close>

definition halves :: graph where
  "halves =
     \<lparr>nodes = [0..<5],
      outArcs = (\<lambda>n. if n = 0 then [Arc 0, Arc 1, Arc 2] else []),
      arc_source = (\<lambda>a. 0),
      arc_target = (\<lambda>a. case a of INVALID \<Rightarrow> 0 | Arc i \<Rightarrow> i + 2),
      node_less = (\<lambda>x y. x div 2 < y div 2)\<rparr>"

definition sort_by_half :: "arc list \<Rightarrow> arc list" where
  "sort_by_half = sort_key (\<lambda>a. arc_target halves a div 2)"

text \<open>Map contents before a constructor runs.\<close>

definition static_init :: static_state where
  "static_init = \<lparr>s_head = (\<lambda>n. INVALID), s_left = (\<lambda>a. INVALID), s_right = (\<lambda>a. INVALID)\<rparr>"

definition all_init :: all_state where
  "all_init = \<lparr>s_head = (\<lambda>n. INVALID), s_left = (\<lambda>a. INVALID), s_right = (\<lambda>a. INVALID),
     s_next = (\<lambda>a. INVALID)\<rparr>"

definition dyn_init :: dyn_state where
  "dyn_init = \<lparr>d_head = (\<lambda>n. INVALID), d_parent = (\<lambda>a. INVALID), d_left = (\<lambda>a. INVALID),
     d_right = (\<lambda>a. INVALID)\<rparr>"

section \<open>The trees a rebuild produces\<close>

text \<open>
  The tree that \<^verbatim>\<open>refreshRec(v,a,b)\<close> builds, as a value: the median of the range at the
  root, the two halves below it.  \<open>node_tree v\<close> is the tree of a whole vector.
\<close>

function median_tree :: "'a list \<Rightarrow> nat \<Rightarrow> nat \<Rightarrow> 'a tree" where
  "median_tree v a b =
     (let m = (a + b) div 2 in
      Node (if a < m then median_tree v a (m - 1) else Leaf) (v ! m)
           (if m < b then median_tree v (m + 1) b else Leaf))"
  by pat_completeness auto
termination
  by (relation "measure (\<lambda>(v, a, b). b - a)") auto

declare median_tree.simps [simp del]

definition node_tree :: "'a list \<Rightarrow> 'a tree" where
  "node_tree v = (if v = [] then Leaf else median_tree v 0 (length v - 1))"

text \<open>
  A map after a series of writes: \<open>ovr f m\<close> is \<open>f\<close> with the entries of \<open>m\<close> written
  over it.
\<close>

definition ovr :: "('k \<Rightarrow> 'v) \<Rightarrow> ('k \<rightharpoonup> 'v) \<Rightarrow> 'k \<Rightarrow> 'v" where
  "ovr f m = (\<lambda>k. case m k of None \<Rightarrow> f k | Some v \<Rightarrow> v)"

section \<open>The dynamic tree seen from one of its arcs\<close>

text \<open>
  A splay rotates an arc up to the root, and an insertion walks down from the root.
  Both are followed with the tree split at the arc under consideration: the subtree
  below it, and the list of the steps from it up to the root.  A step \<open>LeftOf w r\<close> says
  that the arc below is the left child of \<open>w\<close>, whose right subtree is \<open>r\<close>; \<open>RightOf l w\<close>
  says that it is the right child of \<open>w\<close>, whose left subtree is \<open>l\<close>.
\<close>

datatype frame = LeftOf arc "arc tree" | RightOf "arc tree" arc

text \<open>The whole tree again, from a subtree and the steps above it.\<close>

fun plug :: "arc tree \<Rightarrow> frame list \<Rightarrow> arc tree" where
  "plug t [] = t"
| "plug t (LeftOf w r # fs) = plug (Node t w r) fs"
| "plug t (RightOf l w # fs) = plug (Node l w t) fs"

text \<open>The steps above \<open>c\<close> as the maps have them: parents, child slots and sibling subtrees.\<close>

fun path_at :: "dyn_state \<Rightarrow> arc \<Rightarrow> frame list \<Rightarrow> bool" where
  "path_at st c [] = (d_parent st c = INVALID)"
| "path_at st c (LeftOf w r # fs) =
     (d_parent st c = w \<and> w \<noteq> INVALID \<and> d_left st w = c \<and>
      ptree_at st w (d_right st w) r \<and> path_at st w fs)"
| "path_at st c (RightOf l w # fs) =
     (d_parent st c = w \<and> w \<noteq> INVALID \<and> d_right st w = c \<and>
      ptree_at st w (d_left st w) l \<and> path_at st w fs)"

fun frame_arcs :: "frame \<Rightarrow> arc list" where
  "frame_arcs (LeftOf w r) = w # inorder r"
| "frame_arcs (RightOf l w) = w # inorder l"

definition ctx_arcs :: "frame list \<Rightarrow> arc list" where
  "ctx_arcs fs = concat (map frame_arcs fs)"

text \<open>
  The arc \<open>v\<close> with its subtrees \<open>A\<close> and \<open>B\<close> and the steps \<open>fs\<close> above it, all arcs
  different.
\<close>

definition zip_at :: "dyn_state \<Rightarrow> arc \<Rightarrow> arc tree \<Rightarrow> arc tree \<Rightarrow> frame list \<Rightarrow> bool" where
  "zip_at st v A B fs \<longleftrightarrow>
     v \<noteq> INVALID \<and> ptree_at st v (d_left st v) A \<and> ptree_at st v (d_right st v) B \<and>
     path_at st v fs \<and> distinct (v # inorder A @ inorder B @ ctx_arcs fs)"

definition zip_set :: "arc \<Rightarrow> arc tree \<Rightarrow> arc tree \<Rightarrow> frame list \<Rightarrow> arc set" where
  "zip_set v A B fs = insert v (set_tree A \<union> set_tree B \<union> set (ctx_arcs fs))"

text \<open>Two states agree on the parent and child slots of the arcs in \<open>X\<close>.\<close>

definition same_on :: "arc set \<Rightarrow> dyn_state \<Rightarrow> dyn_state \<Rightarrow> bool" where
  "same_on X st st' \<longleftrightarrow>
     (\<forall>x \<in> X. d_parent st' x = d_parent st x \<and> d_left st' x = d_left st x \<and>
        d_right st' x = d_right st x)"

text \<open>
  The steps an insertion of an arc with target \<open>t\<close> takes: left where \<open>t\<close> is smaller
  than the target of the arc passed, right otherwise.
\<close>

fun ctx_ok :: "graph \<Rightarrow> node \<Rightarrow> frame list \<Rightarrow> bool" where
  "ctx_ok g t [] = True"
| "ctx_ok g t (LeftOf w r # fs) = (node_less g t (arc_target g w) \<and> ctx_ok g t fs)"
| "ctx_ok g t (RightOf l w # fs) = (\<not> node_less g t (arc_target g w) \<and> ctx_ok g t fs)"

text \<open>The arcs before and after the subtree, in the order of the whole tree.\<close>

fun lefts :: "frame list \<Rightarrow> arc list" where
  "lefts [] = []"
| "lefts (LeftOf w r # fs) = lefts fs"
| "lefts (RightOf l w # fs) = lefts fs @ inorder l @ [w]"

fun rights :: "frame list \<Rightarrow> arc list" where
  "rights [] = []"
| "rights (LeftOf w r # fs) = w # inorder r @ rights fs"
| "rights (RightOf l w # fs) = rights fs"

text \<open>
  The comparison of node identifiers is a strict weak order: of two identifiers at most
  one is smaller than the other, and not being smaller is transitive.  Every strict
  total order is one, and so is the comparison of integer identifiers.
\<close>

definition strict_weak :: "(node \<Rightarrow> node \<Rightarrow> bool) \<Rightarrow> bool" where
  "strict_weak lt \<longleftrightarrow>
     (\<forall>x y. lt x y \<longrightarrow> \<not> lt y x) \<and> (\<forall>x y z. \<not> lt x y \<longrightarrow> \<not> lt y z \<longrightarrow> \<not> lt x z)"

text \<open>
  The invariant of the dynamic index: the root table entry of every node leads to a tree
  whose parents agree with its child slots, which holds every outgoing arc of the node
  and each of them once, and in which no arc of a left subtree has a greater target than
  the root of the subtree and no arc of a right subtree a smaller one.
\<close>

definition dyn_inv :: "graph \<Rightarrow> dyn_state \<Rightarrow> bool" where
  "dyn_inv g st \<longleftrightarrow>
     (\<forall>n \<in> set (nodes g). \<exists>T. ptree_at st INVALID (d_head st n) T \<and> distinct (inorder T) \<and>
        search_tree g T \<and> set_tree T = set (outArcs g n))"

text \<open>
  A sequence of notifications that only adds arcs: each is a valid handle the graph does
  not have yet, from one of its nodes.
\<close>

fun fresh_adds :: "graph \<Rightarrow> event list \<Rightarrow> bool" where
  "fresh_adds g [] = True"
| "fresh_adds g (AddArc a s t # es) =
     (a \<noteq> INVALID \<and> a \<notin> set (arcs g) \<and> s \<in> set (nodes g) \<and> fresh_adds (addArc g a s t) es)"
| "fresh_adds g (EraseArc a # es) = False"

text \<open>The graph after a sequence of changes, and the arcs the sequence adds.\<close>

fun graph_after :: "graph \<Rightarrow> event list \<Rightarrow> graph" where
  "graph_after g [] = g"
| "graph_after g (AddArc a s t # es) = graph_after (addArc g a s t) es"
| "graph_after g (EraseArc a # es) = graph_after (eraseArc g a) es"

fun added :: "event list \<Rightarrow> arc list" where
  "added [] = []"
| "added (AddArc a s t # es) = a # added es"
| "added (EraseArc a # es) = added es"

text \<open>
  The invariant while a batch of new arcs is being inserted: the arcs \<open>P\<close> still to come
  are in the graph already and not yet in a tree.
\<close>

definition dyn_inv_except :: "graph \<Rightarrow> dyn_state \<Rightarrow> arc set \<Rightarrow> bool" where
  "dyn_inv_except g st P \<longleftrightarrow>
     (\<forall>n \<in> set (nodes g). \<exists>T. ptree_at st INVALID (d_head st n) T \<and> distinct (inorder T) \<and>
        search_tree g T \<and> set_tree T = set (outArcs g n) - P)"

section \<open>The chains a walk of \<^verbatim>\<open>refreshNext\<close> writes\<close>

text \<open>
  \<open>link g x n\<close> is the entry \<^verbatim>\<open>refreshNext\<close> writes for \<open>x\<close> when \<open>n\<close> was visited just
  before it; \<open>chain\<close> collects the entries for the arcs of a tree, given in order, and
  \<open>chains\<close> those of all nodes.
\<close>

definition link :: "graph \<Rightarrow> arc \<Rightarrow> arc \<Rightarrow> arc" where
  "link g x n = (if n \<noteq> INVALID \<and> arc_target g n = arc_target g x then n else INVALID)"

fun chain :: "graph \<Rightarrow> arc list \<Rightarrow> arc \<Rightarrow> (arc \<rightharpoonup> arc)" where
  "chain g [] nxt = Map.empty"
| "chain g (x # xs) nxt = (chain g xs nxt)(x \<mapsto> link g x (hd (xs @ [nxt])))"

fun chains :: "graph \<Rightarrow> (node \<Rightarrow> arc tree) \<Rightarrow> node list \<Rightarrow> (arc \<rightharpoonup> arc)" where
  "chains g T [] = Map.empty"
| "chains g T (n # ns) = chain g (inorder (T n)) INVALID ++ chains g T ns"

section \<open>Queries on an empty tree\<close>

lemma target_INVALID: "target g INVALID = Inl InvalidArc"
  by (simp add: target_def valid_arc_def)

text \<open>
  C6.  The claim: on a node whose root table entry is the sentinel, \<^verbatim>\<open>operator()\<close> and
  \<^verbatim>\<open>findFirst\<close> of \<^verbatim>\<open>DynArcLookUp\<close> return the sentinel and never ask the graph for the
  target of the invalid handle.  The code does the opposite: both start with
  \<^verbatim>\<open>_g.target(_head[s])\<close>, so on every such node both read the target of \<^verbatim>\<open>INVALID\<close>.
\<close>

theorem empty_tree_reads_invalid_target:
  "d_head st s = INVALID \<Longrightarrow>
   lookup g st s t = Some (Inl InvalidArc) \<and> findFirst g st s t = Some (Inl InvalidArc)"
  by (simp add: lookup_def findFirst_def lookup_loop.simps findFirst_loop.simps target_INVALID)

theorem empty_tree_reads_invalid_target_witness:
  "d_head (DynArcLookUp (sort_by_target (fan 3)) (fan 3) dyn_init) 1 = INVALID \<and>
   lookup (fan 3) (DynArcLookUp (sort_by_target (fan 3)) (fan 3) dyn_init) 1 2 = Some (Inl InvalidArc) \<and>
   findFirst (fan 3) (DynArcLookUp (sort_by_target (fan 3)) (fan 3) dyn_init) 1 2 = Some (Inl InvalidArc)"
proof -
  have h: "d_head (DynArcLookUp (sort_by_target (fan 3)) (fan 3) dyn_init) 1 = INVALID"
    by (simp add: DynArcLookUp_def dyn_refresh_def dyn_refresh_node_def dyn_refreshRec.simps
        Let_def fan_def dyn_init_def sort_by_target_def head_set_def parent_set_def
        left_set_def right_set_def upt_rec int_max_def)
  show ?thesis
    using h empty_tree_reads_invalid_target [OF h, of "fan 3" 2] by simp
qed

section \<open>The chained query of the parallel-arc extension\<close>

text \<open>
  C10.  With a previous arc that is not the sentinel, \<^verbatim>\<open>operator()(s,t,prev)\<close> of
  \<^verbatim>\<open>AllArcLookUp\<close> returns the stored next-pointer of \<open>prev\<close>, whatever the two nodes are.
\<close>

theorem chained_query_ignores_nodes:
  "prev \<noteq> INVALID \<Longrightarrow>
   all_lookup g st s t prev = Some (Inr (s_next st prev)) \<and>
   all_lookup g st s t prev = all_lookup g st s' t' prev"
  by (simp add: all_lookup_def)

theorem chained_query_ignores_nodes_witness:
  "Arc 1 \<noteq> INVALID \<and>
   all_lookup (parallel 3) all_init 0 1 (Arc 1) = Some (Inr (s_next all_init (Arc 1))) \<and>
   all_lookup (parallel 3) all_init 0 1 (Arc 1) = all_lookup (parallel 3) all_init 1 0 (Arc 1)"
proof -
  have h: "Arc 1 \<noteq> INVALID" by simp
  show ?thesis
    using h chained_query_ignores_nodes [OF h, of "parallel 3" all_init 0 1 1 0] by blast
qed

section \<open>What a rebuild produces\<close>

subsection \<open>The median tree\<close>


lemma tree_at_frame:
  "tree_at l r a T \<Longrightarrow> (\<And>x. x \<in> set_tree T \<Longrightarrow> l' x = l x \<and> r' x = r x) \<Longrightarrow> tree_at l' r' a T"
  by (induction T arbitrary: a) auto

lemma tree_at_unique: "tree_at l r a T \<Longrightarrow> tree_at l r a T' \<Longrightarrow> T = T'"
proof (induction T arbitrary: a T')
  case Leaf
  then show ?case by (cases T') auto
next
  case (Node lt x rt)
  then show ?case by (cases T') auto
qed

lemma inorder_median_tree:
  "a \<le> b \<Longrightarrow> inorder (median_tree v a b) = map ((!) v) [a..<Suc b]"
proof (induction "b - a" arbitrary: a b rule: less_induct)
  case less
  let ?m = "(a + b) div 2"
  have m: "a \<le> ?m" "?m \<le> b" using less.prems by auto
  have L: "inorder (if a < ?m then median_tree v a (?m - 1) else Leaf) = map ((!) v) [a..<?m]"
  proof (cases "a < ?m")
    case True
    then have "inorder (median_tree v a (?m - 1)) = map ((!) v) [a..<Suc (?m - 1)]"
      using less.prems by (intro less.hyps) auto
    with True show ?thesis by simp
  next
    case False
    with m have "a = ?m" by simp
    with False show ?thesis by simp
  qed
  have R: "inorder (if ?m < b then median_tree v (?m + 1) b else Leaf) = map ((!) v) [Suc ?m..<Suc b]"
  proof (cases "?m < b")
    case True
    then have "inorder (median_tree v (?m + 1) b) = map ((!) v) [?m + 1..<Suc b]"
      using less.prems by (intro less.hyps) auto
    with True show ?thesis by simp
  next
    case False
    with m have "b = ?m" by simp
    with False show ?thesis by simp
  qed
  have "[a..<Suc b] = [a..<?m] @ ?m # [Suc ?m..<Suc b]"
  proof -
    have "[a..<Suc b] = [a..<?m + (Suc b - ?m)]" using m by simp
    also have "\<dots> = [a..<?m] @ [?m..<?m + (Suc b - ?m)]" using m(1) by (rule upt_add_eq_append)
    also have "[?m..<?m + (Suc b - ?m)] = ?m # [Suc ?m..<Suc b]" using m by (simp add: upt_conv_Cons)
    finally show ?thesis .
  qed
  then show ?case
    by (subst median_tree.simps) (simp add: Let_def L R del: upt_Suc)
qed

lemma set_median_tree: "a \<le> b \<Longrightarrow> set_tree (median_tree v a b) = (!) v ` {a..b}"
proof -
  assume ab: "a \<le> b"
  have "set_tree (median_tree v a b) = set (inorder (median_tree v a b))" by simp
  also have "\<dots> = (!) v ` set [a..<Suc b]" using ab by (simp only: inorder_median_tree set_map)
  also have "set [a..<Suc b] = {a..b}" by auto
  finally show ?thesis .
qed


lemma static_refreshRec_tree:
  assumes "distinct v" "INVALID \<notin> set v" "a \<le> b" "b < length v"
    and "2 * (length v - 1) \<le> int_max"
  shows "case static_refreshRec v a b st of (h, st') \<Rightarrow>
           h = v ! ((a + b) div 2) \<and>
           tree_at (s_left st') (s_right st') h (median_tree v a b) \<and>
           (\<forall>x. x \<notin> (!) v ` {a..b} \<longrightarrow> s_left st' x = s_left st x \<and> s_right st' x = s_right st x) \<and>
           s_head st' = s_head st \<and> static_state.more st' = static_state.more st"
  using assms(3,4)
proof (induction "b - a" arbitrary: a b st rule: less_induct)
  case less
  let ?m = "(a + b) div 2"
  let ?me = "v ! ?m"
  have m: "a \<le> ?m" "?m \<le> b" "?m < length v" using less.prems by auto
  have me: "?me \<noteq> INVALID" using assms(2) m(3) by (metis nth_mem)
  have inj: "\<And>i. i \<le> b \<Longrightarrow> (v ! i = ?me) = (i = ?m)"
    using assms(1) less.prems m by (simp add: nth_eq_iff_index_eq)
  obtain l st1 where L: "(if a < ?m then static_refreshRec v a (?m - 1) st else (INVALID, st)) = (l, st1)"
    by fastforce
  define st2 where "st2 = st1\<lparr>s_left := (s_left st1)(?me := l)\<rparr>"
  obtain r st3 where R: "(if ?m < b then static_refreshRec v (?m + 1) b st2 else (INVALID, st2)) = (r, st3)"
    by fastforce
  define st4 where "st4 = st3\<lparr>s_right := (s_right st3)(?me := r)\<rparr>"
  have fit: "\<not> int_max < a + b" using less.prems assms(5) by simp
  have res: "static_refreshRec v a b st = (?me, st4)"
    by (subst static_refreshRec.simps)
       (simp only: fit if_False Let_def L prod.case R [unfolded st2_def] st4_def st2_def)
  let ?lt = "if a < ?m then median_tree v a (?m - 1) else Leaf"
  let ?rt = "if ?m < b then median_tree v (?m + 1) b else Leaf"
  have T: "median_tree v a b = Node ?lt ?me ?rt"
    by (subst median_tree.simps) (simp add: Let_def)
  have setl: "set_tree ?lt \<subseteq> (!) v ` {a..<?m}"
  proof (cases "a < ?m")
    case True
    then have "{a..?m - 1} = {a..<?m}" by auto
    with True show ?thesis by (simp add: set_median_tree)
  next
    case False
    then show ?thesis by simp
  qed
  have setr: "set_tree ?rt \<subseteq> (!) v ` {Suc ?m..b}"
  proof (cases "?m < b")
    case True
    then show ?thesis by (simp add: set_median_tree)
  next
    case False
    then show ?thesis by simp
  qed
  have menl: "?me \<notin> set_tree ?lt"
  proof
    assume "?me \<in> set_tree ?lt"
    then obtain i where i: "i \<in> {a..<?m}" "?me = v ! i" using setl by blast
    then have "i \<le> b" using m by simp
    from inj [OF this] i show False by simp
  qed
  have menr: "?me \<notin> set_tree ?rt"
  proof
    assume "?me \<in> set_tree ?rt"
    then obtain i where i: "i \<in> {Suc ?m..b}" "?me = v ! i" using setr by blast
    then have "i \<le> b" by simp
    from inj [OF this] i show False by simp
  qed
  have lr: "\<And>x. x \<in> set_tree ?lt \<Longrightarrow> x \<notin> (!) v ` {Suc ?m..b}"
  proof
    fix x assume "x \<in> set_tree ?lt" "x \<in> (!) v ` {Suc ?m..b}"
    then obtain i j where ij: "i \<in> {a..<?m}" "x = v ! i" "j \<in> {Suc ?m..b}" "x = v ! j"
      using setl by blast
    then have "i < length v" "j < length v" "i \<noteq> j" using less.prems m by auto
    then have "v ! i \<noteq> v ! j" using assms(1) by (simp add: nth_eq_iff_index_eq)
    with ij show False by simp
  qed
  have P1: "tree_at (s_left st1) (s_right st1) l ?lt \<and>
      (\<forall>x. x \<notin> (!) v ` {a..<?m} \<longrightarrow> s_left st1 x = s_left st x \<and> s_right st1 x = s_right st x) \<and>
      s_head st1 = s_head st \<and> static_state.more st1 = static_state.more st"
  proof (cases "a < ?m")
    case True
    have "case static_refreshRec v a (?m - 1) st of (h, st') \<Rightarrow>
           h = v ! ((a + (?m - 1)) div 2) \<and>
           tree_at (s_left st') (s_right st') h (median_tree v a (?m - 1)) \<and>
           (\<forall>x. x \<notin> (!) v ` {a..?m - 1} \<longrightarrow> s_left st' x = s_left st x \<and> s_right st' x = s_right st x) \<and>
           s_head st' = s_head st \<and> static_state.more st' = static_state.more st"
      using True less.prems by (intro less.hyps) auto
    moreover have "{a..?m - 1} = {a..<?m}" using True by auto
    ultimately show ?thesis using True L by auto
  next
    case False
    then show ?thesis using L by auto
  qed
  have P3: "tree_at (s_left st3) (s_right st3) r ?rt \<and>
      (\<forall>x. x \<notin> (!) v ` {Suc ?m..b} \<longrightarrow> s_left st3 x = s_left st2 x \<and> s_right st3 x = s_right st2 x) \<and>
      s_head st3 = s_head st2 \<and> static_state.more st3 = static_state.more st2"
  proof (cases "?m < b")
    case True
    have "case static_refreshRec v (?m + 1) b st2 of (h, st') \<Rightarrow>
           h = v ! ((?m + 1 + b) div 2) \<and>
           tree_at (s_left st') (s_right st') h (median_tree v (?m + 1) b) \<and>
           (\<forall>x. x \<notin> (!) v ` {?m + 1..b} \<longrightarrow> s_left st' x = s_left st2 x \<and> s_right st' x = s_right st2 x) \<and>
           s_head st' = s_head st2 \<and> static_state.more st' = static_state.more st2"
      using True less.prems by (intro less.hyps) auto
    then show ?thesis using True R by auto
  next
    case False
    then show ?thesis using R by auto
  qed
  have out_r: "?me \<notin> (!) v ` {Suc ?m..b}"
  proof
    assume "?me \<in> (!) v ` {Suc ?m..b}"
    then obtain i where i: "i \<in> {Suc ?m..b}" "?me = v ! i" by blast
    then have "i \<le> b" by simp
    from inj [OF this] i show False by simp
  qed
  have "s_left st3 ?me = s_left st2 ?me" using P3 out_r by blast
  then have l4: "s_left st4 ?me = l" by (simp add: st4_def st2_def)
  have r4: "s_right st4 ?me = r" by (simp add: st4_def)
  have tl: "tree_at (s_left st4) (s_right st4) l ?lt"
  proof (rule tree_at_frame [where l = "s_left st1" and r = "s_right st1"])
    show "tree_at (s_left st1) (s_right st1) l ?lt" using P1 by simp
    fix x assume x: "x \<in> set_tree ?lt"
    then have "x \<noteq> ?me" using menl by auto
    moreover have "x \<notin> (!) v ` {Suc ?m..b}" using lr x by blast
    ultimately show "s_left st4 x = s_left st1 x \<and> s_right st4 x = s_right st1 x"
      using P3 by (simp add: st4_def st2_def)
  qed
  have tr: "tree_at (s_left st4) (s_right st4) r ?rt"
  proof (rule tree_at_frame [where l = "s_left st3" and r = "s_right st3"])
    show "tree_at (s_left st3) (s_right st3) r ?rt" using P3 by simp
    fix x assume x: "x \<in> set_tree ?rt"
    then have "x \<noteq> ?me" using menr by auto
    then show "s_left st4 x = s_left st3 x \<and> s_right st4 x = s_right st3 x"
      by (simp add: st4_def)
  qed
  have frame: "\<forall>x. x \<notin> (!) v ` {a..b} \<longrightarrow> s_left st4 x = s_left st x \<and> s_right st4 x = s_right st x"
  proof (intro allI impI)
    fix x assume x: "x \<notin> (!) v ` {a..b}"
    have "x \<noteq> ?me" using x m by auto
    moreover have "x \<notin> (!) v ` {a..<?m}" using x m by auto
    moreover have "x \<notin> (!) v ` {Suc ?m..b}" using x m by auto
    ultimately show "s_left st4 x = s_left st x \<and> s_right st4 x = s_right st x"
      using P1 P3 by (simp add: st4_def st2_def)
  qed
  have "s_head st4 = s_head st \<and> static_state.more st4 = static_state.more st"
    using P1 P3 by (simp add: st4_def st2_def)
  then show ?case
    using res T me l4 r4 tl tr frame by simp
qed

lemma static_refreshRec_result:
  assumes "distinct v" "INVALID \<notin> set v" "a \<le> b" "b < length v"
    and "2 * (length v - 1) \<le> int_max"
    and "static_refreshRec v a b st = (h, st')"
  shows "h = v ! ((a + b) div 2)"
    and "tree_at (s_left st') (s_right st') h (median_tree v a b)"
    and "\<And>x. x \<notin> (!) v ` {a..b} \<Longrightarrow> s_left st' x = s_left st x \<and> s_right st' x = s_right st x"
    and "s_head st' = s_head st"
  using static_refreshRec_tree [OF assms(1-5), of st] assms(6) by auto


lemma inorder_node_tree: "inorder (node_tree v) = v"
proof (cases "v = []")
  case True
  then show ?thesis by (simp add: node_tree_def)
next
  case False
  then have "Suc (length v - 1) = length v" by simp
  then have "map ((!) v) [0..<Suc (length v - 1)] = v" by (simp only: map_nth)
  with False show ?thesis by (simp add: node_tree_def inorder_median_tree del: upt_Suc)
qed

lemma set_node_tree: "set_tree (node_tree v) = set v"
  using inorder_node_tree [of v] by (metis set_inorder)

lemma permutes_set: "permutes srt \<Longrightarrow> set (srt xs) = set xs"
  by (metis permutes_def mset_eq_setD)

lemma permutes_distinct: "permutes srt \<Longrightarrow> distinct (srt xs) = distinct xs"
  by (metis permutes_def mset_eq_imp_distinct_iff)

lemma permutes_length: "permutes srt \<Longrightarrow> length (srt xs) = length xs"
  by (metis permutes_def mset_eq_length)

lemma distinct_concat_disjoint:
  "distinct (concat (map f ns)) \<Longrightarrow> n \<in> set ns \<Longrightarrow> n' \<in> set ns \<Longrightarrow> n \<noteq> n' \<Longrightarrow>
   set (f n) \<inter> set (f n') = {}"
  by (induction ns) auto

lemma distinct_concat_each:
  "distinct (concat (map f ns)) \<Longrightarrow> n \<in> set ns \<Longrightarrow> distinct (f n)"
  by (induction ns) auto

lemma wf_graph_out:
  assumes "wf_graph g" "n \<in> set (nodes g)"
  shows "distinct (outArcs g n)" "INVALID \<notin> set (outArcs g n)"
    "\<And>n'. n' \<in> set (nodes g) \<Longrightarrow> n' \<noteq> n \<Longrightarrow> set (outArcs g n) \<inter> set (outArcs g n') = {}"
    "\<And>a. a \<in> set (outArcs g n) \<Longrightarrow> arc_source g a = n"
    "\<And>a. a \<in> set (outArcs g n) \<Longrightarrow> valid_arc g a"
proof -
  have d: "distinct (concat (map (outArcs g) (nodes g)))" and i: "INVALID \<notin> set (arcs g)"
    using assms(1) by (simp_all add: wf_graph_def arcs_def)
  show "distinct (outArcs g n)" using d assms(2) by (rule distinct_concat_each)
  have sub: "set (outArcs g n) \<subseteq> set (arcs g)" using assms(2) by (auto simp: arcs_def)
  show "INVALID \<notin> set (outArcs g n)" using i sub by blast
  show "\<And>n'. n' \<in> set (nodes g) \<Longrightarrow> n' \<noteq> n \<Longrightarrow> set (outArcs g n) \<inter> set (outArcs g n') = {}"
    using d assms(2) by (metis distinct_concat_disjoint)
  show "\<And>a. a \<in> set (outArcs g n) \<Longrightarrow> arc_source g a = n"
    using assms by (simp add: wf_graph_def)
  show "\<And>a. a \<in> set (outArcs g n) \<Longrightarrow> valid_arc g a"
    using i sub by (auto simp: valid_arc_def)
qed

lemma static_refresh_node_tree:
  assumes "distinct (outArcs g n)" "INVALID \<notin> set (outArcs g n)" "permutes srt"
    and "2 * (length (outArcs g n) - 1) \<le> int_max"
  shows "tree_at (s_left (static_refresh_node srt g st n)) (s_right (static_refresh_node srt g st n))
           (s_head (static_refresh_node srt g st n) n) (node_tree (srt (outArcs g n)))"
    and "\<And>x. x \<notin> set (outArcs g n) \<Longrightarrow>
           s_left (static_refresh_node srt g st n) x = s_left st x \<and>
           s_right (static_refresh_node srt g st n) x = s_right st x"
    and "\<And>n'. n' \<noteq> n \<Longrightarrow> s_head (static_refresh_node srt g st n) n' = s_head st n'"
proof -
  let ?v = "srt (outArcs g n)"
  have dv: "distinct ?v" and iv: "INVALID \<notin> set ?v" and sv: "set ?v = set (outArcs g n)"
    using assms(1-3) by (simp_all add: permutes_distinct permutes_set)
  have fv: "2 * (length ?v - 1) \<le> int_max" using assms(3,4) by (simp add: permutes_length)
  show "tree_at (s_left (static_refresh_node srt g st n)) (s_right (static_refresh_node srt g st n))
           (s_head (static_refresh_node srt g st n) n) (node_tree (srt (outArcs g n)))"
  proof (cases "?v = []")
    case True
    then show ?thesis by (simp add: static_refresh_node_def node_tree_def)
  next
    case False
    then have b: "0 \<le> length ?v - 1" "length ?v - 1 < length ?v" by simp_all
    obtain h st' where r: "static_refreshRec ?v 0 (length ?v - 1) st = (h, st')" by fastforce
    have "tree_at (s_left st') (s_right st') h (median_tree ?v 0 (length ?v - 1))"
      by (rule static_refreshRec_result(2) [OF dv iv b fv r])
    with False r show ?thesis by (simp add: static_refresh_node_def node_tree_def)
  qed
  show "\<And>x. x \<notin> set (outArcs g n) \<Longrightarrow>
           s_left (static_refresh_node srt g st n) x = s_left st x \<and>
           s_right (static_refresh_node srt g st n) x = s_right st x"
  proof (cases "?v = []")
    case True
    then show "\<And>x. s_left (static_refresh_node srt g st n) x = s_left st x \<and>
           s_right (static_refresh_node srt g st n) x = s_right st x"
      by (simp add: static_refresh_node_def)
  next
    case False
    fix x assume x: "x \<notin> set (outArcs g n)"
    from False have b: "0 \<le> length ?v - 1" "length ?v - 1 < length ?v" by simp_all
    obtain h st' where r: "static_refreshRec ?v 0 (length ?v - 1) st = (h, st')" by fastforce
    have "(!) ?v ` {0..length ?v - 1} \<subseteq> set ?v"
    proof
      fix y assume "y \<in> (!) ?v ` {0..length ?v - 1}"
      then obtain i where "i \<le> length ?v - 1" "y = ?v ! i" by auto
      moreover from this False have "i < length ?v" by (cases ?v) auto
      ultimately show "y \<in> set ?v" by simp
    qed
    then have "x \<notin> (!) ?v ` {0..length ?v - 1}" using x sv by blast
    then have "s_left st' x = s_left st x \<and> s_right st' x = s_right st x"
      by (rule static_refreshRec_result(3) [OF dv iv b fv r])
    with False r show "s_left (static_refresh_node srt g st n) x = s_left st x \<and>
           s_right (static_refresh_node srt g st n) x = s_right st x"
      by (simp add: static_refresh_node_def)
  qed
  show "\<And>n'. n' \<noteq> n \<Longrightarrow> s_head (static_refresh_node srt g st n) n' = s_head st n'"
  proof (cases "?v = []")
    case True
    then show "\<And>n'. n' \<noteq> n \<Longrightarrow> s_head (static_refresh_node srt g st n) n' = s_head st n'"
      by (simp add: static_refresh_node_def)
  next
    case False
    fix n' assume n': "n' \<noteq> n"
    from False have b: "0 \<le> length ?v - 1" "length ?v - 1 < length ?v" by simp_all
    obtain h st' where r: "static_refreshRec ?v 0 (length ?v - 1) st = (h, st')" by fastforce
    have "s_head st' = s_head st"
      by (rule static_refreshRec_result(4) [OF dv iv b fv r])
    with False r n' show "s_head (static_refresh_node srt g st n) n' = s_head st n'"
      by (simp add: static_refresh_node_def)
  qed
qed

lemma static_refresh_nodes_tree:
  assumes "wf_graph g" "permutes srt" "fits_int g"
  shows "distinct ns \<Longrightarrow> set ns \<subseteq> set (nodes g) \<Longrightarrow> n \<in> set ns \<Longrightarrow>
     tree_at (s_left (foldl (static_refresh_node srt g) st ns))
       (s_right (foldl (static_refresh_node srt g) st ns))
       (s_head (foldl (static_refresh_node srt g) st ns) n) (node_tree (srt (outArcs g n)))"
proof (induction ns rule: rev_induct)
  case Nil
  then show ?case by simp
next
  case (snoc k ns)
  let ?st = "foldl (static_refresh_node srt g) st ns"
  have k: "k \<in> set (nodes g)" using snoc.prems by simp
  note wk = wf_graph_out [OF assms(1) k]
  have fk: "2 * (length (outArcs g k) - 1) \<le> int_max" using assms(3) k by (simp add: fits_int_def)
  note nk = static_refresh_node_tree [OF wk(1) wk(2) assms(2) fk, where st = ?st]
  show ?case
  proof (cases "n = k")
    case True
    then show ?thesis using nk(1) by simp
  next
    case False
    then have n: "n \<in> set ns" "n \<in> set (nodes g)" using snoc.prems by auto
    have IH: "tree_at (s_left ?st) (s_right ?st) (s_head ?st n) (node_tree (srt (outArcs g n)))"
      using snoc.IH snoc.prems n by simp
    have disj: "set (outArcs g k) \<inter> set (outArcs g n) = {}" using wk(3) n False by blast
    have "tree_at (s_left (static_refresh_node srt g ?st k)) (s_right (static_refresh_node srt g ?st k))
            (s_head ?st n) (node_tree (srt (outArcs g n)))"
    proof (rule tree_at_frame [OF IH])
      fix x assume "x \<in> set_tree (node_tree (srt (outArcs g n)))"
      then have "x \<in> set (outArcs g n)" using assms(2) by (simp add: set_node_tree permutes_set)
      then have "x \<notin> set (outArcs g k)" using disj by blast
      then show "s_left (static_refresh_node srt g ?st k) x = s_left ?st x \<and>
                 s_right (static_refresh_node srt g ?st k) x = s_right ?st x"
        by (rule nk(2))
    qed
    moreover have "s_head (static_refresh_node srt g ?st k) n = s_head ?st n"
      using nk(3) False by simp
    ultimately show ?thesis by simp
  qed
qed

lemma static_refresh_tree:
  assumes "wf_graph g" "permutes srt" "fits_int g" "n \<in> set (nodes g)"
  shows "tree_at (s_left (static_refresh srt g st)) (s_right (static_refresh srt g st))
           (s_head (static_refresh srt g st) n) (node_tree (srt (outArcs g n)))"
  unfolding static_refresh_def
  using assms(1) by (intro static_refresh_nodes_tree assms) (simp_all add: wf_graph_def)

lemma search_tree_sorted:
  "sorted_wrt (\<lambda>a b. \<not> ArcLess g b a) (inorder T) \<Longrightarrow> search_tree g T"
  by (induction T) (auto simp: sorted_wrt_append ArcLess_def)

subsection \<open>The tree of the dynamic index, with parents\<close>

lemma ptree_at_frame:
  "ptree_at st p a T \<Longrightarrow>
   (\<And>x. x \<in> set_tree T \<Longrightarrow> d_parent st' x = d_parent st x \<and> d_left st' x = d_left st x \<and>
      d_right st' x = d_right st x) \<Longrightarrow>
   ptree_at st' p a T"
  by (induction T arbitrary: a p) auto

lemma ptree_at_reparent:
  assumes "ptree_at st p a T" "distinct (inorder T)"
  shows "ptree_at (parent_set st a q) q a T"
proof (cases T)
  case Leaf
  with assms show ?thesis by simp
next
  case (Node lt x rt)
  with assms have a: "a = x" "x \<noteq> INVALID" and l: "ptree_at st x (d_left st x) lt"
    and r: "ptree_at st x (d_right st x) rt" and nl: "x \<notin> set_tree lt" and nr: "x \<notin> set_tree rt"
    by auto
  have "ptree_at (parent_set st x q) x (d_left st x) lt"
    by (rule ptree_at_frame [OF l]) (use nl in \<open>auto simp: parent_set_def\<close>)
  moreover have "ptree_at (parent_set st x q) x (d_right st x) rt"
    by (rule ptree_at_frame [OF r]) (use nr in \<open>auto simp: parent_set_def\<close>)
  ultimately show ?thesis using a Node by (simp add: parent_set_def)
qed

lemma median_tree_not_Leaf: "median_tree v a b \<noteq> Leaf"
  by (subst median_tree.simps) (simp add: Let_def)

lemma ptree_at_root: "ptree_at st p a T \<Longrightarrow> T \<noteq> Leaf \<Longrightarrow> a \<in> set_tree T \<and> a \<noteq> INVALID"
  by (cases T) auto

lemma distinct_inorder_median_tree:
  assumes "distinct v" "a \<le> b" "b < length v"
  shows "distinct (inorder (median_tree v a b))"
proof -
  have "inj_on ((!) v) (set [a..<Suc b])"
    using assms by (auto simp: inj_on_def nth_eq_iff_index_eq)
  then have "distinct (map ((!) v) [a..<Suc b])" by (simp add: distinct_map del: upt_Suc)
  then show ?thesis using assms(2) by (simp only: inorder_median_tree)
qed

lemma dyn_refreshRec_tree:
  assumes "distinct v" "INVALID \<notin> set v" "a \<le> b" "b < length v"
    and "2 * (length v - 1) \<le> int_max"
  shows "case dyn_refreshRec v a b st of (h, st') \<Rightarrow>
           h = v ! ((a + b) div 2) \<and>
           ptree_at st' (d_parent st' h) h (median_tree v a b) \<and>
           (\<forall>x. x \<notin> (!) v ` {a..b} \<longrightarrow> d_parent st' x = d_parent st x \<and>
                d_left st' x = d_left st x \<and> d_right st' x = d_right st x) \<and>
           d_head st' = d_head st"
  using assms(3,4)
proof (induction "b - a" arbitrary: a b st rule: less_induct)
  case less
  let ?m = "(a + b) div 2"
  let ?me = "v ! ?m"
  have m: "a \<le> ?m" "?m \<le> b" "?m < length v" using less.prems by auto
  have me: "?me \<noteq> INVALID" using assms(2) m(3) by (metis nth_mem)
  have inj: "\<And>i. i \<le> b \<Longrightarrow> (v ! i = ?me) = (i = ?m)"
    using assms(1) less.prems m by (simp add: nth_eq_iff_index_eq)
  let ?lt = "if a < ?m then median_tree v a (?m - 1) else Leaf"
  let ?rt = "if ?m < b then median_tree v (?m + 1) b else Leaf"
  have T: "median_tree v a b = Node ?lt ?me ?rt"
    by (subst median_tree.simps) (simp add: Let_def)
  have setl: "set_tree ?lt \<subseteq> (!) v ` {a..<?m}"
  proof (cases "a < ?m")
    case True
    then have "{a..?m - 1} = {a..<?m}" by auto
    with True show ?thesis by (simp add: set_median_tree)
  next
    case False
    then show ?thesis by simp
  qed
  have setr: "set_tree ?rt \<subseteq> (!) v ` {Suc ?m..b}"
  proof (cases "?m < b")
    case True
    then show ?thesis by (simp add: set_median_tree)
  next
    case False
    then show ?thesis by simp
  qed
  have out_l: "?me \<notin> (!) v ` {a..<?m}"
  proof
    assume "?me \<in> (!) v ` {a..<?m}"
    then obtain i where i: "i \<in> {a..<?m}" "?me = v ! i" by blast
    then have "i \<le> b" using m by simp
    from inj [OF this] i show False by simp
  qed
  have out_r: "?me \<notin> (!) v ` {Suc ?m..b}"
  proof
    assume "?me \<in> (!) v ` {Suc ?m..b}"
    then obtain i where i: "i \<in> {Suc ?m..b}" "?me = v ! i" by blast
    then have "i \<le> b" by simp
    from inj [OF this] i show False by simp
  qed
  have lr: "\<And>x. x \<in> (!) v ` {a..<?m} \<Longrightarrow> x \<notin> (!) v ` {Suc ?m..b}"
  proof
    fix x assume "x \<in> (!) v ` {a..<?m}" "x \<in> (!) v ` {Suc ?m..b}"
    then obtain i j where ij: "i \<in> {a..<?m}" "x = v ! i" "j \<in> {Suc ?m..b}" "x = v ! j"
      by blast
    then have "i < length v" "j < length v" "i \<noteq> j" using less.prems m by auto
    then have "v ! i \<noteq> v ! j" using assms(1) by (simp add: nth_eq_iff_index_eq)
    with ij show False by simp
  qed
  define sa where "sa = (if a < ?m then
                  (let (l, st) = dyn_refreshRec v a (?m - 1) st;
                       st = left_set st ?me l
                   in parent_set st l ?me)
                else left_set st ?me INVALID)"
  define sb where "sb = (if ?m < b then
                  (let (r, st) = dyn_refreshRec v (?m + 1) b sa;
                       st = right_set st ?me r
                   in parent_set st r ?me)
                else right_set sa ?me INVALID)"
  have fit: "\<not> int_max < a + b" using less.prems assms(5) by simp
  have res: "dyn_refreshRec v a b st = (?me, sb)"
    by (subst dyn_refreshRec.simps) (simp only: fit if_False Let_def sa_def sb_def)
  have PA: "ptree_at sa ?me (d_left sa ?me) ?lt \<and>
      (\<forall>x. x \<notin> (!) v ` {a..<?m} \<and> x \<noteq> ?me \<longrightarrow> d_parent sa x = d_parent st x \<and>
           d_left sa x = d_left st x \<and> d_right sa x = d_right st x) \<and>
      d_parent sa ?me = d_parent st ?me \<and> d_right sa ?me = d_right st ?me \<and>
      d_head sa = d_head st"
  proof (cases "a < ?m")
    case True
    obtain l s1 where r1: "dyn_refreshRec v a (?m - 1) st = (l, s1)" by fastforce
    have eq: "{a..?m - 1} = {a..<?m}" using True by auto
    have "case dyn_refreshRec v a (?m - 1) st of (h, st') \<Rightarrow>
           h = v ! ((a + (?m - 1)) div 2) \<and>
           ptree_at st' (d_parent st' h) h (median_tree v a (?m - 1)) \<and>
           (\<forall>x. x \<notin> (!) v ` {a..?m - 1} \<longrightarrow> d_parent st' x = d_parent st x \<and>
                d_left st' x = d_left st x \<and> d_right st' x = d_right st x) \<and>
           d_head st' = d_head st"
      using True less.prems by (intro less.hyps) auto
    with r1 eq have t1: "ptree_at s1 (d_parent s1 l) l (median_tree v a (?m - 1))"
      and f1: "\<forall>x. x \<notin> (!) v ` {a..<?m} \<longrightarrow> d_parent s1 x = d_parent st x \<and>
                d_left s1 x = d_left st x \<and> d_right s1 x = d_right st x"
      and h1: "d_head s1 = d_head st" by auto
    have dl: "distinct (inorder (median_tree v a (?m - 1)))"
      using True less.prems by (intro distinct_inorder_median_tree assms(1)) auto
    have sa: "sa = parent_set (left_set s1 ?me l) l ?me"
      using True r1 by (simp add: sa_def)
    have lin: "l \<in> set_tree (median_tree v a (?m - 1))"
      using ptree_at_root [OF t1 median_tree_not_Leaf] by simp
    then have lseg: "l \<in> (!) v ` {a..<?m}" using setl True by auto
    have lme: "l \<noteq> ?me" using lseg out_l by blast
    have "ptree_at (left_set s1 ?me l) (d_parent s1 l) l (median_tree v a (?m - 1))"
    proof (rule ptree_at_frame [OF t1])
      fix x assume "x \<in> set_tree (median_tree v a (?m - 1))"
      then have "x \<noteq> ?me" using setl True out_l by auto
      then show "d_parent (left_set s1 ?me l) x = d_parent s1 x \<and>
         d_left (left_set s1 ?me l) x = d_left s1 x \<and> d_right (left_set s1 ?me l) x = d_right s1 x"
        by (simp add: left_set_def)
    qed
    then have "ptree_at sa ?me l (median_tree v a (?m - 1))"
      unfolding sa using dl by (rule ptree_at_reparent)
    moreover have "d_left sa ?me = l" by (simp add: sa left_set_def parent_set_def)
    moreover have "\<forall>x. x \<notin> (!) v ` {a..<?m} \<and> x \<noteq> ?me \<longrightarrow> d_parent sa x = d_parent st x \<and>
           d_left sa x = d_left st x \<and> d_right sa x = d_right st x"
      using f1 lseg by (auto simp: sa left_set_def parent_set_def)
    moreover have "d_parent sa ?me = d_parent st ?me \<and> d_right sa ?me = d_right st ?me"
      using f1 out_l lme by (simp add: sa left_set_def parent_set_def)
    moreover have "d_head sa = d_head st" using h1 by (simp add: sa left_set_def parent_set_def)
    ultimately show ?thesis using True by simp
  next
    case False
    then show ?thesis by (simp add: sa_def left_set_def)
  qed
  have PB: "ptree_at sb ?me (d_right sb ?me) ?rt \<and>
      (\<forall>x. x \<notin> (!) v ` {Suc ?m..b} \<and> x \<noteq> ?me \<longrightarrow> d_parent sb x = d_parent sa x \<and>
           d_left sb x = d_left sa x \<and> d_right sb x = d_right sa x) \<and>
      d_parent sb ?me = d_parent sa ?me \<and> d_left sb ?me = d_left sa ?me \<and>
      d_head sb = d_head sa"
  proof (cases "?m < b")
    case True
    obtain r s3 where r3: "dyn_refreshRec v (?m + 1) b sa = (r, s3)" by fastforce
    have "case dyn_refreshRec v (?m + 1) b sa of (h, st') \<Rightarrow>
           h = v ! ((?m + 1 + b) div 2) \<and>
           ptree_at st' (d_parent st' h) h (median_tree v (?m + 1) b) \<and>
           (\<forall>x. x \<notin> (!) v ` {?m + 1..b} \<longrightarrow> d_parent st' x = d_parent sa x \<and>
                d_left st' x = d_left sa x \<and> d_right st' x = d_right sa x) \<and>
           d_head st' = d_head sa"
      using True less.prems by (intro less.hyps) auto
    with r3 have t3: "ptree_at s3 (d_parent s3 r) r (median_tree v (?m + 1) b)"
      and f3: "\<forall>x. x \<notin> (!) v ` {Suc ?m..b} \<longrightarrow> d_parent s3 x = d_parent sa x \<and>
                d_left s3 x = d_left sa x \<and> d_right s3 x = d_right sa x"
      and h3: "d_head s3 = d_head sa" by auto
    have dr: "distinct (inorder (median_tree v (?m + 1) b))"
      using True less.prems by (intro distinct_inorder_median_tree assms(1)) auto
    have sb: "sb = parent_set (right_set s3 ?me r) r ?me"
      using True r3 by (simp add: sb_def)
    have rin: "r \<in> set_tree (median_tree v (?m + 1) b)"
      using ptree_at_root [OF t3 median_tree_not_Leaf] by simp
    then have rseg: "r \<in> (!) v ` {Suc ?m..b}" using setr True by auto
    have rme: "r \<noteq> ?me" using rseg out_r by blast
    have "ptree_at (right_set s3 ?me r) (d_parent s3 r) r (median_tree v (?m + 1) b)"
    proof (rule ptree_at_frame [OF t3])
      fix x assume "x \<in> set_tree (median_tree v (?m + 1) b)"
      then have "x \<noteq> ?me" using setr True out_r by auto
      then show "d_parent (right_set s3 ?me r) x = d_parent s3 x \<and>
         d_left (right_set s3 ?me r) x = d_left s3 x \<and> d_right (right_set s3 ?me r) x = d_right s3 x"
        by (simp add: right_set_def)
    qed
    then have "ptree_at sb ?me r (median_tree v (?m + 1) b)"
      unfolding sb using dr by (rule ptree_at_reparent)
    moreover have "d_right sb ?me = r" by (simp add: sb right_set_def parent_set_def)
    moreover have "\<forall>x. x \<notin> (!) v ` {Suc ?m..b} \<and> x \<noteq> ?me \<longrightarrow> d_parent sb x = d_parent sa x \<and>
           d_left sb x = d_left sa x \<and> d_right sb x = d_right sa x"
      using f3 rseg by (auto simp: sb right_set_def parent_set_def)
    moreover have "d_parent sb ?me = d_parent sa ?me \<and> d_left sb ?me = d_left sa ?me"
      using f3 out_r rme by (simp add: sb right_set_def parent_set_def)
    moreover have "d_head sb = d_head sa" using h3 by (simp add: sb right_set_def parent_set_def)
    ultimately show ?thesis using True by simp
  next
    case False
    then show ?thesis by (simp add: sb_def right_set_def)
  qed
  have tl: "ptree_at sb ?me (d_left sb ?me) ?lt"
  proof -
    have "ptree_at sb ?me (d_left sa ?me) ?lt"
    proof (rule ptree_at_frame [where st = sa])
      show "ptree_at sa ?me (d_left sa ?me) ?lt" using PA by simp
      fix x assume x: "x \<in> set_tree ?lt"
      then have "x \<in> (!) v ` {a..<?m}" using setl by blast
      then have "x \<notin> (!) v ` {Suc ?m..b} \<and> x \<noteq> ?me" using lr out_l by blast
      then show "d_parent sb x = d_parent sa x \<and> d_left sb x = d_left sa x \<and>
        d_right sb x = d_right sa x" using PB by blast
    qed
    then show ?thesis using PB by simp
  qed
  have frame: "\<forall>x. x \<notin> (!) v ` {a..b} \<longrightarrow> d_parent sb x = d_parent st x \<and>
                d_left sb x = d_left st x \<and> d_right sb x = d_right st x"
  proof (intro allI impI)
    fix x assume x: "x \<notin> (!) v ` {a..b}"
    have "x \<noteq> ?me" using x m by auto
    moreover have "x \<notin> (!) v ` {a..<?m}" using x m by auto
    moreover have "x \<notin> (!) v ` {Suc ?m..b}" using x m by auto
    ultimately show "d_parent sb x = d_parent st x \<and>
                d_left sb x = d_left st x \<and> d_right sb x = d_right st x"
      using PA PB by simp
  qed
  have "d_head sb = d_head st" using PA PB by simp
  then show ?case
    using res T me tl PB frame by simp
qed

lemma dyn_refreshRec_result:
  assumes "distinct v" "INVALID \<notin> set v" "a \<le> b" "b < length v"
    and "2 * (length v - 1) \<le> int_max"
    and "dyn_refreshRec v a b st = (h, st')"
  shows "h = v ! ((a + b) div 2)"
    and "ptree_at st' (d_parent st' h) h (median_tree v a b)"
    and "\<And>x. x \<notin> (!) v ` {a..b} \<Longrightarrow> d_parent st' x = d_parent st x \<and>
                d_left st' x = d_left st x \<and> d_right st' x = d_right st x"
    and "d_head st' = d_head st"
  using dyn_refreshRec_tree [OF assms(1-5), of st] assms(6) by auto

lemma nth_image_subset:
  assumes "v \<noteq> []"
  shows "(!) v ` {0..length v - 1} \<subseteq> set v"
proof
  fix y assume "y \<in> (!) v ` {0..length v - 1}"
  then obtain i where "i \<le> length v - 1" "y = v ! i" by auto
  moreover from this assms have "i < length v" by (cases v) auto
  ultimately show "y \<in> set v" by simp
qed

lemma dyn_refresh_node_tree:
  assumes "distinct (outArcs g n)" "INVALID \<notin> set (outArcs g n)" "permutes srt"
    and "2 * (length (outArcs g n) - 1) \<le> int_max"
  shows "ptree_at (dyn_refresh_node srt g st n) INVALID (d_head (dyn_refresh_node srt g st n) n)
           (node_tree (srt (outArcs g n)))"
    and "\<And>x. x \<notin> set (outArcs g n) \<Longrightarrow>
           d_parent (dyn_refresh_node srt g st n) x = d_parent st x \<and>
           d_left (dyn_refresh_node srt g st n) x = d_left st x \<and>
           d_right (dyn_refresh_node srt g st n) x = d_right st x"
    and "\<And>n'. n' \<noteq> n \<Longrightarrow> d_head (dyn_refresh_node srt g st n) n' = d_head st n'"
proof -
  let ?v = "srt (outArcs g n)"
  let ?R = "dyn_refresh_node srt g st n"
  have dv: "distinct ?v" and iv: "INVALID \<notin> set ?v" and sv: "set ?v = set (outArcs g n)"
    using assms(1-3) by (simp_all add: permutes_distinct permutes_set)
  have fv: "2 * (length ?v - 1) \<le> int_max" using assms(3,4) by (simp add: permutes_length)
  show "ptree_at ?R INVALID (d_head ?R n) (node_tree ?v)"
    and "\<And>x. x \<notin> set (outArcs g n) \<Longrightarrow>
           d_parent ?R x = d_parent st x \<and> d_left ?R x = d_left st x \<and> d_right ?R x = d_right st x"
    and "\<And>n'. n' \<noteq> n \<Longrightarrow> d_head ?R n' = d_head st n'"
  proof (atomize (full), cases "?v = []")
    case True
    then show "ptree_at ?R INVALID (d_head ?R n) (node_tree ?v) \<and>
     (\<forall>x. x \<notin> set (outArcs g n) \<longrightarrow>
           d_parent ?R x = d_parent st x \<and> d_left ?R x = d_left st x \<and> d_right ?R x = d_right st x) \<and>
     (\<forall>n'. n' \<noteq> n \<longrightarrow> d_head ?R n' = d_head st n')"
      by (simp add: dyn_refresh_node_def node_tree_def head_set_def)
  next
    case False
    then have b: "0 \<le> length ?v - 1" "length ?v - 1 < length ?v" by simp_all
    obtain h st' where r: "dyn_refreshRec ?v 0 (length ?v - 1) st = (h, st')" by fastforce
    note rr = dyn_refreshRec_result [OF dv iv b fv r]
    have R: "?R = parent_set (head_set st' n h) h INVALID"
      using False r by (simp add: dyn_refresh_node_def)
    have dm: "distinct (inorder (median_tree ?v 0 (length ?v - 1)))"
      using dv b by (rule distinct_inorder_median_tree)
    have "ptree_at (head_set st' n h) (d_parent st' h) h (median_tree ?v 0 (length ?v - 1))"
      by (rule ptree_at_frame [OF rr(2)]) (simp add: head_set_def)
    then have "ptree_at ?R INVALID h (median_tree ?v 0 (length ?v - 1))"
      unfolding R using dm by (rule ptree_at_reparent)
    moreover have "d_head ?R n = h" by (simp add: R head_set_def parent_set_def)
    ultimately have 1: "ptree_at ?R INVALID (d_head ?R n) (node_tree ?v)"
      using False by (simp add: node_tree_def)
    have hin: "h \<in> set (outArcs g n)"
      using ptree_at_root [OF rr(2) median_tree_not_Leaf] set_median_tree [of 0 "length ?v - 1" ?v]
        nth_image_subset [OF False] sv by auto
    have 2: "\<forall>x. x \<notin> set (outArcs g n) \<longrightarrow>
           d_parent ?R x = d_parent st x \<and> d_left ?R x = d_left st x \<and> d_right ?R x = d_right st x"
    proof (intro allI impI)
      fix x assume x: "x \<notin> set (outArcs g n)"
      then have "x \<notin> (!) ?v ` {0..length ?v - 1}" using nth_image_subset [OF False] sv by blast
      from rr(3) [OF this] x hin
      show "d_parent ?R x = d_parent st x \<and> d_left ?R x = d_left st x \<and> d_right ?R x = d_right st x"
        by (auto simp: R head_set_def parent_set_def)
    qed
    have 3: "\<forall>n'. n' \<noteq> n \<longrightarrow> d_head ?R n' = d_head st n'"
      using rr(4) by (simp add: R head_set_def parent_set_def)
    from 1 2 3 show "ptree_at ?R INVALID (d_head ?R n) (node_tree ?v) \<and>
     (\<forall>x. x \<notin> set (outArcs g n) \<longrightarrow>
           d_parent ?R x = d_parent st x \<and> d_left ?R x = d_left st x \<and> d_right ?R x = d_right st x) \<and>
     (\<forall>n'. n' \<noteq> n \<longrightarrow> d_head ?R n' = d_head st n')" by blast
  qed
qed

lemma dyn_refresh_nodes_tree:
  assumes "wf_graph g" "permutes srt" "fits_int g"
  shows "distinct ns \<Longrightarrow> set ns \<subseteq> set (nodes g) \<Longrightarrow> n \<in> set ns \<Longrightarrow>
     ptree_at (foldl (dyn_refresh_node srt g) st ns) INVALID
       (d_head (foldl (dyn_refresh_node srt g) st ns) n) (node_tree (srt (outArcs g n)))"
proof (induction ns rule: rev_induct)
  case Nil
  then show ?case by simp
next
  case (snoc k ns)
  let ?st = "foldl (dyn_refresh_node srt g) st ns"
  have k: "k \<in> set (nodes g)" using snoc.prems by simp
  note wk = wf_graph_out [OF assms(1) k]
  have fk: "2 * (length (outArcs g k) - 1) \<le> int_max" using assms(3) k by (simp add: fits_int_def)
  note nk = dyn_refresh_node_tree [OF wk(1) wk(2) assms(2) fk, where st = ?st]
  show ?case
  proof (cases "n = k")
    case True
    then show ?thesis using nk(1) by simp
  next
    case False
    then have n: "n \<in> set ns" "n \<in> set (nodes g)" using snoc.prems by auto
    have IH: "ptree_at ?st INVALID (d_head ?st n) (node_tree (srt (outArcs g n)))"
      using snoc.IH snoc.prems n by simp
    have disj: "set (outArcs g k) \<inter> set (outArcs g n) = {}" using wk(3) n False by blast
    have "ptree_at (dyn_refresh_node srt g ?st k) INVALID (d_head ?st n) (node_tree (srt (outArcs g n)))"
    proof (rule ptree_at_frame [OF IH])
      fix x assume "x \<in> set_tree (node_tree (srt (outArcs g n)))"
      then have "x \<in> set (outArcs g n)" using assms(2) by (simp add: set_node_tree permutes_set)
      then have "x \<notin> set (outArcs g k)" using disj by blast
      then show "d_parent (dyn_refresh_node srt g ?st k) x = d_parent ?st x \<and>
                 d_left (dyn_refresh_node srt g ?st k) x = d_left ?st x \<and>
                 d_right (dyn_refresh_node srt g ?st k) x = d_right ?st x"
        by (rule nk(2))
    qed
    moreover have "d_head (dyn_refresh_node srt g ?st k) n = d_head ?st n"
      using nk(3) False by simp
    ultimately show ?thesis by simp
  qed
qed

lemma dyn_refresh_tree:
  assumes "wf_graph g" "permutes srt" "fits_int g" "n \<in> set (nodes g)"
  shows "ptree_at (dyn_refresh srt g st) INVALID (d_head (dyn_refresh srt g st) n)
           (node_tree (srt (outArcs g n)))"
  unfolding dyn_refresh_def
  using assms(1) by (intro dyn_refresh_nodes_tree assms) (simp_all add: wf_graph_def)

lemma sorts_with_sort_by_target:
  assumes "node_less g = (<)"
  shows "sorts_with g (sort_by_target g)"
proof -
  have "sorted_wrt (\<lambda>a b. \<not> ArcLess g b a) (sort_key (arc_target g) xs)" for xs
  proof -
    have "sorted (map (arc_target g) (sort_key (arc_target g) xs))" by (rule sorted_sort_key)
    then have "sorted_wrt (\<lambda>a b. arc_target g a \<le> arc_target g b) (sort_key (arc_target g) xs)"
      by (simp add: sorted_map)
    then show ?thesis by (simp add: ArcLess_def assms not_less)
  qed
  then show ?thesis by (simp add: sorts_with_def permutes_def sort_by_target_def)
qed

lemma node_tree_search_tree:
  assumes "sorts_with g srt"
  shows "search_tree g (node_tree (srt xs))"
  using assms by (intro search_tree_sorted) (simp add: inorder_node_tree sorts_with_def)


subsection \<open>Adding an arc to the dynamic index\<close>

text \<open>
  \<^verbatim>\<open>insert\<close> walks down from the root to a free slot, hangs the new arc there and splays
  it to the root.  The walk keeps the order of the tree, and a splay keeps the sequence of
  the arcs of the tree from left to right.
\<close>

lemma ctx_arcs_simps [simp]:
  "ctx_arcs [] = []" "ctx_arcs (f # fs) = frame_arcs f @ ctx_arcs fs"
  by (simp_all add: ctx_arcs_def)

lemma ptree_at_same_on: "ptree_at st p a T \<Longrightarrow> same_on (set_tree T) st st' \<Longrightarrow> ptree_at st' p a T"
  by (rule ptree_at_frame) (auto simp: same_on_def)

lemma ptree_at_not_INVALID: "ptree_at st p a T \<Longrightarrow> INVALID \<notin> set_tree T"
  by (induction T arbitrary: a p) auto

lemma ptree_at_Leaf_iff: "ptree_at st p a T \<Longrightarrow> (a = INVALID) = (T = Leaf)"
  by (cases T) auto

lemma ptree_at_root_in: "ptree_at st p a T \<Longrightarrow> a \<noteq> INVALID \<Longrightarrow> a \<in> set_tree T"
  by (cases T) auto

lemma ptree_at_root_parent: "ptree_at st p a T \<Longrightarrow> a \<noteq> INVALID \<Longrightarrow> d_parent st a = p"
  by (cases T) auto

lemma path_at_same_on:
  "path_at st c fs \<Longrightarrow> d_parent st' c = d_parent st c \<Longrightarrow> same_on (set (ctx_arcs fs)) st st' \<Longrightarrow>
   path_at st' c fs"
proof (induction fs arbitrary: c)
  case Nil
  then show ?case by simp
next
  case (Cons f fs)
  show ?case
  proof (cases f)
    case (LeftOf w r)
    with Cons.prems have w: "d_parent st c = w" "w \<noteq> INVALID" "d_left st w = c"
      and r: "ptree_at st w (d_right st w) r" and p: "path_at st w fs" by auto
    have sw: "d_parent st' w = d_parent st w" "d_left st' w = d_left st w" "d_right st' w = d_right st w"
      using Cons.prems(3) LeftOf by (auto simp: same_on_def)
    have "same_on (set_tree r) st st'" using Cons.prems(3) LeftOf by (auto simp: same_on_def)
    then have "ptree_at st' w (d_right st w) r" using r by (metis ptree_at_same_on)
    moreover have "same_on (set (ctx_arcs fs)) st st'" using Cons.prems(3) by (auto simp: same_on_def)
    then have "path_at st' w fs" using Cons.IH p sw by blast
    ultimately show ?thesis using LeftOf w sw Cons.prems(2) by simp
  next
    case (RightOf l w)
    with Cons.prems have w: "d_parent st c = w" "w \<noteq> INVALID" "d_right st w = c"
      and r: "ptree_at st w (d_left st w) l" and p: "path_at st w fs" by auto
    have sw: "d_parent st' w = d_parent st w" "d_left st' w = d_left st w" "d_right st' w = d_right st w"
      using Cons.prems(3) RightOf by (auto simp: same_on_def)
    have "same_on (set_tree l) st st'" using Cons.prems(3) RightOf by (auto simp: same_on_def)
    then have "ptree_at st' w (d_left st w) l" using r by (metis ptree_at_same_on)
    moreover have "same_on (set (ctx_arcs fs)) st st'" using Cons.prems(3) by (auto simp: same_on_def)
    then have "path_at st' w fs" using Cons.IH p sw by blast
    ultimately show ?thesis using RightOf w sw Cons.prems(2) by simp
  qed
qed

text \<open>The grandparent and its slot, read off the rest of the path.\<close>

lemma path_at_parent_cases:
  assumes "path_at st w fs"
  shows "(fs = [] \<and> d_parent st w = INVALID) \<or>
         (\<exists>g r fs'. fs = LeftOf g r # fs' \<and> d_parent st w = g \<and> g \<noteq> INVALID \<and> d_left st g = w) \<or>
         (\<exists>g l fs'. fs = RightOf l g # fs' \<and> d_parent st w = g \<and> g \<noteq> INVALID \<and> d_right st g = w)"
proof (cases fs)
  case Nil
  with assms show ?thesis by simp
next
  case (Cons f fs')
  with assms show ?thesis by (cases f) auto
qed

lemma zig_fields:
  assumes "v \<noteq> INVALID" "d_parent st v = w" "w \<noteq> INVALID" "v \<noteq> w"
    and "d_parent st w = g" "g \<noteq> v" "g \<noteq> w"
    and "d_right st v = b" "b \<noteq> v" "b \<noteq> w" "b = INVALID \<or> b \<noteq> g"
  shows "\<exists>st'. zig st v = Inr st' \<and> d_head st' = d_head st \<and>
     (\<forall>x. d_parent st' x =
        (if x = b \<and> b \<noteq> INVALID then w else if x = w then v else if x = v then g else d_parent st x)) \<and>
     (\<forall>x. d_left st' x =
        (if x = g \<and> g \<noteq> INVALID \<and> d_right st g \<noteq> w then v else if x = w then b else d_left st x)) \<and>
     (\<forall>x. d_right st' x =
        (if x = g \<and> g \<noteq> INVALID \<and> d_right st g = w then v else if x = v then w else d_right st x))"
  using assms
  by (auto simp: zig_def Let_def parent_set_def left_set_def right_set_def)

lemma zag_fields:
  assumes "v \<noteq> INVALID" "d_parent st v = w" "w \<noteq> INVALID" "v \<noteq> w"
    and "d_parent st w = g" "g \<noteq> v" "g \<noteq> w"
    and "d_left st v = b" "b \<noteq> v" "b \<noteq> w" "b = INVALID \<or> b \<noteq> g"
  shows "\<exists>st'. zag st v = Inr st' \<and> d_head st' = d_head st \<and>
     (\<forall>x. d_parent st' x =
        (if x = b \<and> b \<noteq> INVALID then w else if x = w then v else if x = v then g else d_parent st x)) \<and>
     (\<forall>x. d_right st' x =
        (if x = g \<and> g \<noteq> INVALID \<and> d_left st g \<noteq> w then v else if x = w then b else d_right st x)) \<and>
     (\<forall>x. d_left st' x =
        (if x = g \<and> g \<noteq> INVALID \<and> d_left st g = w then v else if x = v then w else d_left st x))"
  using assms
  by (auto simp: zag_def Let_def parent_set_def left_set_def right_set_def)

lemma ptree_at_reroot:
  assumes "ptree_at st p a T" "distinct (inorder T)" "same_on (set_tree T - {a}) st st'"
    and "d_left st' a = d_left st a" "d_right st' a = d_right st a"
    and "a \<noteq> INVALID \<Longrightarrow> d_parent st' a = q"
  shows "ptree_at st' q a T"
proof (cases T)
  case Leaf
  with assms show ?thesis by simp
next
  case (Node lt x rt)
  with assms(1,2) have a: "a = x" "x \<noteq> INVALID" and l: "ptree_at st x (d_left st x) lt"
    and r: "ptree_at st x (d_right st x) rt" and nl: "x \<notin> set_tree lt" and nr: "x \<notin> set_tree rt"
    by auto
  have "same_on (set_tree lt) st st'" using assms(3) Node a nl by (auto simp: same_on_def)
  then have "ptree_at st' x (d_left st x) lt" by (rule ptree_at_same_on [OF l])
  moreover have "same_on (set_tree rt) st st'" using assms(3) Node a nr by (auto simp: same_on_def)
  then have "ptree_at st' x (d_right st x) rt" by (rule ptree_at_same_on [OF r])
  ultimately show ?thesis using a Node assms(4,5,6) by simp
qed

lemma path_at_replace_child:
  assumes "path_at st w fs" "w \<notin> set (ctx_arcs fs)" "w \<noteq> INVALID"
    and P: "d_parent st' v = d_parent st w"
    and G: "d_parent st w \<noteq> INVALID \<Longrightarrow>
         d_parent st' (d_parent st w) = d_parent st (d_parent st w) \<and>
         (d_left st (d_parent st w) = w \<and> d_right st (d_parent st w) \<noteq> w \<longrightarrow>
            d_left st' (d_parent st w) = v \<and> d_right st' (d_parent st w) = d_right st (d_parent st w)) \<and>
         (d_right st (d_parent st w) = w \<and> d_left st (d_parent st w) \<noteq> w \<longrightarrow>
            d_right st' (d_parent st w) = v \<and> d_left st' (d_parent st w) = d_left st (d_parent st w))"
    and S: "same_on (set (ctx_arcs fs) - {d_parent st w}) st st'"
    and D: "distinct (ctx_arcs fs)"
  shows "path_at st' v fs"
proof (cases fs)
  case Nil
  with assms(1) P show ?thesis by simp
next
  case (Cons f fs')
  show ?thesis
  proof (cases f)
    case (LeftOf g r)
    with Cons assms(1) have g: "d_parent st w = g" "g \<noteq> INVALID" "d_left st g = w"
      and r: "ptree_at st g (d_right st g) r" and p: "path_at st g fs'" by auto
    have gr: "g \<notin> set_tree r" "g \<notin> set (ctx_arcs fs')" using D Cons LeftOf by auto
    have "d_right st g \<noteq> w"
    proof
      assume e: "d_right st g = w"
      with ptree_at_root_in [OF r] assms(3) have "w \<in> set_tree r" by simp
      with assms(2) Cons LeftOf show False by simp
    qed
    with G g have g': "d_parent st' g = d_parent st g" "d_left st' g = v" "d_right st' g = d_right st g"
      by auto
    have "same_on (set_tree r) st st'" using S gr g Cons LeftOf by (auto simp: same_on_def)
    then have "ptree_at st' g (d_right st g) r" by (rule ptree_at_same_on [OF r])
    moreover have "same_on (set (ctx_arcs fs')) st st'" using S gr g Cons LeftOf by (auto simp: same_on_def)
    then have "path_at st' g fs'" by (rule path_at_same_on [OF p g'(1)])
    ultimately show ?thesis using Cons LeftOf g g' P by simp
  next
    case (RightOf l g)
    with Cons assms(1) have g: "d_parent st w = g" "g \<noteq> INVALID" "d_right st g = w"
      and r: "ptree_at st g (d_left st g) l" and p: "path_at st g fs'" by auto
    have gr: "g \<notin> set_tree l" "g \<notin> set (ctx_arcs fs')" using D Cons RightOf by auto
    have "d_left st g \<noteq> w"
    proof
      assume e: "d_left st g = w"
      with ptree_at_root_in [OF r] assms(3) have "w \<in> set_tree l" by simp
      with assms(2) Cons RightOf show False by simp
    qed
    with G g have g': "d_parent st' g = d_parent st g" "d_right st' g = v" "d_left st' g = d_left st g"
      by auto
    have "same_on (set_tree l) st st'" using S gr g Cons RightOf by (auto simp: same_on_def)
    then have "ptree_at st' g (d_left st g) l" by (rule ptree_at_same_on [OF r])
    moreover have "same_on (set (ctx_arcs fs')) st st'" using S gr g Cons RightOf by (auto simp: same_on_def)
    then have "path_at st' g fs'" by (rule path_at_same_on [OF p g'(1)])
    ultimately show ?thesis using Cons RightOf g g' P by simp
  qed
qed

lemma path_at_parent_in:
  "path_at st w fs \<Longrightarrow> d_parent st w = INVALID \<or> d_parent st w \<in> set (ctx_arcs fs)"
  using path_at_parent_cases [of st w fs] by auto

lemma same_onI:
  "(\<And>x. x \<in> X \<Longrightarrow> d_parent st' x = d_parent st x \<and> d_left st' x = d_left st x \<and>
      d_right st' x = d_right st x) \<Longrightarrow> same_on X st st'"
  by (simp add: same_on_def)

lemma zig_zip:
  assumes "zip_at st v A B (LeftOf w C # fs)"
  shows "\<exists>st'. zig st v = Inr st' \<and> zip_at st' v A (Node B w C) fs \<and> d_head st' = d_head st \<and>
     same_on (- set (v # inorder A @ inorder B @ w # inorder C @ ctx_arcs fs)) st st'"
proof -
  define g where "g = d_parent st w"
  define b where "b = d_right st v"
  from assms have v: "v \<noteq> INVALID" and tA: "ptree_at st v (d_left st v) A"
    and tB: "ptree_at st v (d_right st v) B" and pv: "d_parent st v = w" and w: "w \<noteq> INVALID"
    and lw: "d_left st w = v" and tC: "ptree_at st w (d_right st w) C" and pw: "path_at st w fs"
    and dist: "distinct (v # inorder A @ inorder B @ w # inorder C @ ctx_arcs fs)"
    by (auto simp: zip_at_def)
  have g_in: "g = INVALID \<or> g \<in> set (ctx_arcs fs)"
    unfolding g_def using pw by (rule path_at_parent_in)
  have b_in: "b = INVALID \<or> b \<in> set_tree B"
    unfolding b_def using ptree_at_root_in [OF tB] by blast
  have tB': "ptree_at st v b B" using tB by (simp add: b_def)
  have nA: "INVALID \<notin> set_tree A" and nB: "INVALID \<notin> set_tree B" and nC: "INVALID \<notin> set_tree C"
    by (rule ptree_at_not_INVALID [OF tA], rule ptree_at_not_INVALID [OF tB],
        rule ptree_at_not_INVALID [OF tC])
  have dsj: "v \<notin> set_tree A" "v \<notin> set_tree B" "v \<notin> set_tree C" "v \<notin> set (ctx_arcs fs)"
    "w \<notin> set_tree A" "w \<notin> set_tree B" "w \<notin> set_tree C" "w \<notin> set (ctx_arcs fs)"
    "set_tree A \<inter> set_tree B = {}" "set_tree A \<inter> set_tree C = {}"
    "set_tree A \<inter> set (ctx_arcs fs) = {}" "set_tree B \<inter> set_tree C = {}"
    "set_tree B \<inter> set (ctx_arcs fs) = {}" "set_tree C \<inter> set (ctx_arcs fs) = {}"
    using dist by auto
  have vw: "v \<noteq> w" using dist by auto
  have gv: "g \<noteq> v" using g_in v dsj by blast
  have gw: "g \<noteq> w" using g_in w dsj by blast
  have bv: "b \<noteq> v" using b_in v dsj by blast
  have bw: "b \<noteq> w" using b_in w dsj by blast
  have bg: "b = INVALID \<or> b \<noteq> g" using b_in g_in dsj by blast
  from zig_fields [OF v pv w vw g_def [symmetric] gv gw b_def [symmetric] bv bw bg]
  obtain st' where z: "zig st v = Inr st'" and h: "d_head st' = d_head st"
    and P: "\<And>x. d_parent st' x =
        (if x = b \<and> b \<noteq> INVALID then w else if x = w then v else if x = v then g else d_parent st x)"
    and L: "\<And>x. d_left st' x =
        (if x = g \<and> g \<noteq> INVALID \<and> d_right st g \<noteq> w then v else if x = w then b else d_left st x)"
    and R: "\<And>x. d_right st' x =
        (if x = g \<and> g \<noteq> INVALID \<and> d_right st g = w then v else if x = v then w else d_right st x)"
    by blast
  have same: "\<And>X. v \<notin> X \<Longrightarrow> w \<notin> X \<Longrightarrow> b \<notin> X \<or> b = INVALID \<Longrightarrow> g \<notin> X \<or> g = INVALID \<Longrightarrow>
     same_on X st st'"
  proof (rule same_onI)
    fix X x assume "v \<notin> X" "w \<notin> X" "b \<notin> X \<or> b = INVALID" "g \<notin> X \<or> g = INVALID" "x \<in> X"
    then have "x \<noteq> v" "x \<noteq> w" "x \<noteq> b \<or> b = INVALID" "x \<noteq> g \<or> g = INVALID" by auto
    then show "d_parent st' x = d_parent st x \<and> d_left st' x = d_left st x \<and>
      d_right st' x = d_right st x"
      using P [of x] L [of x] R [of x] by auto
  qed
  have sA: "same_on (set_tree A) st st'"
  proof (rule same)
    show "v \<notin> set_tree A" using dist by auto
    show "w \<notin> set_tree A" using dist by auto
    show "b \<notin> set_tree A \<or> b = INVALID" using b_in dsj by blast
    show "g \<notin> set_tree A \<or> g = INVALID" using g_in dsj by blast
  qed
  have sC: "same_on (set_tree C) st st'"
  proof (rule same)
    show "v \<notin> set_tree C" using dist by auto
    show "w \<notin> set_tree C" using dist by auto
    show "b \<notin> set_tree C \<or> b = INVALID" using b_in dsj by blast
    show "g \<notin> set_tree C \<or> g = INVALID" using g_in dsj by blast
  qed
  have sB: "same_on (set_tree B - {b}) st st'"
  proof (rule same)
    show "v \<notin> set_tree B - {b}" using dist by auto
    show "w \<notin> set_tree B - {b}" using dist by auto
    show "b \<notin> set_tree B - {b} \<or> b = INVALID" using b_in dsj by blast
    show "g \<notin> set_tree B - {b} \<or> g = INVALID" using g_in dsj by blast
  qed
  have "d_left st' v = d_left st v" using L gv vw by simp
  with ptree_at_same_on [OF tA sA] have 1: "ptree_at st' v (d_left st' v) A" by simp
  have "ptree_at st' w b B"
  proof (rule ptree_at_reroot [OF tB' _ sB])
    show "distinct (inorder B)" using dist by simp
    show "d_left st' b = d_left st b" using L bw bg b_in by auto
    show "d_right st' b = d_right st b" using R bv bg b_in by auto
    show "b \<noteq> INVALID \<Longrightarrow> d_parent st' b = w" using P by simp
  qed
  moreover have "d_left st' w = b" using L gw by simp
  moreover have "d_right st' w = d_right st w" using R gw vw by simp
  moreover have "d_parent st' w = v" using P bw by simp
  moreover have "d_right st' v = w" using R gv by simp
  ultimately have 2: "ptree_at st' v (d_right st' v) (Node B w C)"
    using w ptree_at_same_on [OF tC sC] by simp
  have 3: "path_at st' v fs"
  proof (rule path_at_replace_child [OF pw, folded g_def])
    show "w \<notin> set (ctx_arcs fs)" using dist by simp
    show "w \<noteq> INVALID" by (rule w)
    show "d_parent st' v = g" using P bv vw by simp
    show "distinct (ctx_arcs fs)" using dist by simp
    show "same_on (set (ctx_arcs fs) - {g}) st st'"
    proof (rule same)
      show "v \<notin> set (ctx_arcs fs) - {g}" using dist by auto
      show "w \<notin> set (ctx_arcs fs) - {g}" using dist by auto
      show "b \<notin> set (ctx_arcs fs) - {g} \<or> b = INVALID" using b_in dsj by blast
      show "g \<notin> set (ctx_arcs fs) - {g} \<or> g = INVALID" by simp
    qed
    assume g: "g \<noteq> INVALID"
    have "d_parent st' g = d_parent st g" using P gv gw bg g by auto
    moreover have "d_left st g = w \<and> d_right st g \<noteq> w \<longrightarrow> d_left st' g = v \<and> d_right st' g = d_right st g"
      using L R g gv by simp
    moreover have "d_right st g = w \<and> d_left st g \<noteq> w \<longrightarrow> d_right st' g = v \<and> d_left st' g = d_left st g"
      using L R g gw by simp
    ultimately show "d_parent st' g = d_parent st g \<and>
         (d_left st g = w \<and> d_right st g \<noteq> w \<longrightarrow> d_left st' g = v \<and> d_right st' g = d_right st g) \<and>
         (d_right st g = w \<and> d_left st g \<noteq> w \<longrightarrow> d_right st' g = v \<and> d_left st' g = d_left st g)"
      by blast
  qed
  have 4: "distinct (v # inorder A @ inorder (Node B w C) @ ctx_arcs fs)" using dist by auto
  have 5: "same_on (- set (v # inorder A @ inorder B @ w # inorder C @ ctx_arcs fs)) st st'"
  proof (rule same)
    let ?Z = "set (v # inorder A @ inorder B @ w # inorder C @ ctx_arcs fs)"
    show "v \<notin> - ?Z" by simp
    show "w \<notin> - ?Z" by simp
    have "set_tree A \<subseteq> ?Z" "set_tree B \<subseteq> ?Z" "set (ctx_arcs fs) \<subseteq> ?Z" by auto
    then show "b \<notin> - ?Z \<or> b = INVALID" "g \<notin> - ?Z \<or> g = INVALID"
      using b_in g_in by blast+
  qed
  have "zip_at st' v A (Node B w C) fs"
    unfolding zip_at_def by (intro conjI v 1 2 3 4)
  with z h 5 show ?thesis by blast
qed

lemma zag_zip:
  assumes "zip_at st v A B (RightOf C w # fs)"
  shows "\<exists>st'. zag st v = Inr st' \<and> zip_at st' v (Node C w A) B fs \<and> d_head st' = d_head st \<and>
     same_on (- set (v # inorder A @ inorder B @ w # inorder C @ ctx_arcs fs)) st st'"
proof -
  define g where "g = d_parent st w"
  define b where "b = d_left st v"
  from assms have v: "v \<noteq> INVALID" and tA: "ptree_at st v (d_left st v) A"
    and tB: "ptree_at st v (d_right st v) B" and pv: "d_parent st v = w" and w: "w \<noteq> INVALID"
    and rw: "d_right st w = v" and tC: "ptree_at st w (d_left st w) C" and pw: "path_at st w fs"
    and dist: "distinct (v # inorder A @ inorder B @ w # inorder C @ ctx_arcs fs)"
    by (auto simp: zip_at_def)
  have g_in: "g = INVALID \<or> g \<in> set (ctx_arcs fs)"
    unfolding g_def using pw by (rule path_at_parent_in)
  have b_in: "b = INVALID \<or> b \<in> set_tree A"
    unfolding b_def using ptree_at_root_in [OF tA] by blast
  have tA': "ptree_at st v b A" using tA by (simp add: b_def)
  have nA: "INVALID \<notin> set_tree A" and nB: "INVALID \<notin> set_tree B" and nC: "INVALID \<notin> set_tree C"
    by (rule ptree_at_not_INVALID [OF tA], rule ptree_at_not_INVALID [OF tB],
        rule ptree_at_not_INVALID [OF tC])
  have dsj: "v \<notin> set_tree A" "v \<notin> set_tree B" "v \<notin> set_tree C" "v \<notin> set (ctx_arcs fs)"
    "w \<notin> set_tree A" "w \<notin> set_tree B" "w \<notin> set_tree C" "w \<notin> set (ctx_arcs fs)"
    "set_tree A \<inter> set_tree B = {}" "set_tree A \<inter> set_tree C = {}"
    "set_tree A \<inter> set (ctx_arcs fs) = {}" "set_tree B \<inter> set_tree C = {}"
    "set_tree B \<inter> set (ctx_arcs fs) = {}" "set_tree C \<inter> set (ctx_arcs fs) = {}"
    using dist by auto
  have vw: "v \<noteq> w" using dist by auto
  have gv: "g \<noteq> v" using g_in v dsj by blast
  have gw: "g \<noteq> w" using g_in w dsj by blast
  have bv: "b \<noteq> v" using b_in v dsj by blast
  have bw: "b \<noteq> w" using b_in w dsj by blast
  have bg: "b = INVALID \<or> b \<noteq> g" using b_in g_in dsj by blast
  from zag_fields [OF v pv w vw g_def [symmetric] gv gw b_def [symmetric] bv bw bg]
  obtain st' where z: "zag st v = Inr st'" and h: "d_head st' = d_head st"
    and P: "\<And>x. d_parent st' x =
        (if x = b \<and> b \<noteq> INVALID then w else if x = w then v else if x = v then g else d_parent st x)"
    and R: "\<And>x. d_right st' x =
        (if x = g \<and> g \<noteq> INVALID \<and> d_left st g \<noteq> w then v else if x = w then b else d_right st x)"
    and L: "\<And>x. d_left st' x =
        (if x = g \<and> g \<noteq> INVALID \<and> d_left st g = w then v else if x = v then w else d_left st x)"
    by blast
  have same: "\<And>X. v \<notin> X \<Longrightarrow> w \<notin> X \<Longrightarrow> b \<notin> X \<or> b = INVALID \<Longrightarrow> g \<notin> X \<or> g = INVALID \<Longrightarrow>
     same_on X st st'"
  proof (rule same_onI)
    fix X x assume "v \<notin> X" "w \<notin> X" "b \<notin> X \<or> b = INVALID" "g \<notin> X \<or> g = INVALID" "x \<in> X"
    then have "x \<noteq> v" "x \<noteq> w" "x \<noteq> b \<or> b = INVALID" "x \<noteq> g \<or> g = INVALID" by auto
    then show "d_parent st' x = d_parent st x \<and> d_left st' x = d_left st x \<and>
      d_right st' x = d_right st x"
      using P [of x] L [of x] R [of x] by auto
  qed
  have sB: "same_on (set_tree B) st st'"
  proof (rule same)
    show "v \<notin> set_tree B" using dist by auto
    show "w \<notin> set_tree B" using dist by auto
    show "b \<notin> set_tree B \<or> b = INVALID" using b_in dsj by blast
    show "g \<notin> set_tree B \<or> g = INVALID" using g_in dsj by blast
  qed
  have sC: "same_on (set_tree C) st st'"
  proof (rule same)
    show "v \<notin> set_tree C" using dist by auto
    show "w \<notin> set_tree C" using dist by auto
    show "b \<notin> set_tree C \<or> b = INVALID" using b_in dsj by blast
    show "g \<notin> set_tree C \<or> g = INVALID" using g_in dsj by blast
  qed
  have sA: "same_on (set_tree A - {b}) st st'"
  proof (rule same)
    show "v \<notin> set_tree A - {b}" using dist by auto
    show "w \<notin> set_tree A - {b}" using dist by auto
    show "b \<notin> set_tree A - {b} \<or> b = INVALID" using b_in dsj by blast
    show "g \<notin> set_tree A - {b} \<or> g = INVALID" using g_in dsj by blast
  qed
  have "d_right st' v = d_right st v" using R gv vw by simp
  with ptree_at_same_on [OF tB sB] have 1: "ptree_at st' v (d_right st' v) B" by simp
  have "ptree_at st' w b A"
  proof (rule ptree_at_reroot [OF tA' _ sA])
    show "distinct (inorder A)" using dist by simp
    show "d_left st' b = d_left st b" using L bv bg b_in by auto
    show "d_right st' b = d_right st b" using R bw bg b_in by auto
    show "b \<noteq> INVALID \<Longrightarrow> d_parent st' b = w" using P by simp
  qed
  moreover have "d_right st' w = b" using R gw by simp
  moreover have "d_left st' w = d_left st w" using L gw vw by simp
  moreover have "d_parent st' w = v" using P bw by simp
  moreover have "d_left st' v = w" using L gv by simp
  ultimately have 2: "ptree_at st' v (d_left st' v) (Node C w A)"
    using w ptree_at_same_on [OF tC sC] by simp
  have 3: "path_at st' v fs"
  proof (rule path_at_replace_child [OF pw, folded g_def])
    show "w \<notin> set (ctx_arcs fs)" using dist by simp
    show "w \<noteq> INVALID" by (rule w)
    show "d_parent st' v = g" using P bv vw by simp
    show "distinct (ctx_arcs fs)" using dist by simp
    show "same_on (set (ctx_arcs fs) - {g}) st st'"
    proof (rule same)
      show "v \<notin> set (ctx_arcs fs) - {g}" using dist by auto
      show "w \<notin> set (ctx_arcs fs) - {g}" using dist by auto
      show "b \<notin> set (ctx_arcs fs) - {g} \<or> b = INVALID" using b_in dsj by blast
      show "g \<notin> set (ctx_arcs fs) - {g} \<or> g = INVALID" by simp
    qed
    assume g: "g \<noteq> INVALID"
    have "d_parent st' g = d_parent st g" using P gv gw bg g by auto
    moreover have "d_left st g = w \<and> d_right st g \<noteq> w \<longrightarrow> d_left st' g = v \<and> d_right st' g = d_right st g"
      using L R g gw by simp
    moreover have "d_right st g = w \<and> d_left st g \<noteq> w \<longrightarrow> d_right st' g = v \<and> d_left st' g = d_left st g"
      using L R g gv by simp
    ultimately show "d_parent st' g = d_parent st g \<and>
         (d_left st g = w \<and> d_right st g \<noteq> w \<longrightarrow> d_left st' g = v \<and> d_right st' g = d_right st g) \<and>
         (d_right st g = w \<and> d_left st g \<noteq> w \<longrightarrow> d_right st' g = v \<and> d_left st' g = d_left st g)"
      by blast
  qed
  have 4: "distinct (v # inorder (Node C w A) @ inorder B @ ctx_arcs fs)" using dist by auto
  have 5: "same_on (- set (v # inorder A @ inorder B @ w # inorder C @ ctx_arcs fs)) st st'"
  proof (rule same)
    let ?Z = "set (v # inorder A @ inorder B @ w # inorder C @ ctx_arcs fs)"
    show "v \<notin> - ?Z" by simp
    show "w \<notin> - ?Z" by simp
    have "set_tree A \<subseteq> ?Z" "set_tree B \<subseteq> ?Z" "set (ctx_arcs fs) \<subseteq> ?Z" by auto
    then show "b \<notin> - ?Z \<or> b = INVALID" "g \<notin> - ?Z \<or> g = INVALID"
      using b_in g_in by blast+
  qed
  have "zip_at st' v (Node C w A) B fs"
    unfolding zip_at_def by (intro conjI v 2 1 3 4)
  with z h 5 show ?thesis by blast
qed

lemma zip_up_L: "zip_at st v A B (LeftOf w C # fs) \<Longrightarrow> zip_at st w (Node A v B) C fs"
  by (auto simp: zip_at_def)

lemma zip_down_L: "zip_at st w (Node A v B) C fs \<Longrightarrow> zip_at st v A B (LeftOf w C # fs)"
  by (auto simp: zip_at_def)

lemma zip_up_R: "zip_at st v A B (RightOf C w # fs) \<Longrightarrow> zip_at st w C (Node A v B) fs"
  by (auto simp: zip_at_def)

lemma zip_down_R: "zip_at st w C (Node A v B) fs \<Longrightarrow> zip_at st v A B (RightOf C w # fs)"
  by (auto simp: zip_at_def)

lemma same_on_trans: "same_on X st st1 \<Longrightarrow> same_on X st1 st2 \<Longrightarrow> same_on X st st2"
  by (simp add: same_on_def)

lemma same_on_refl: "same_on X st st"
  by (simp add: same_on_def)

lemma same_on_subset: "same_on X st st' \<Longrightarrow> Y \<subseteq> X \<Longrightarrow> same_on Y st st'"
  by (auto simp: same_on_def)

lemma inorder_plug_cong: "inorder t = inorder t' \<Longrightarrow> inorder (plug t fs) = inorder (plug t' fs)"
proof (induction fs arbitrary: t t')
  case Nil
  then show ?case by simp
next
  case (Cons f fs)
  show ?case
  proof (cases f)
    case (LeftOf w r)
    have "inorder (Node t w r) = inorder (Node t' w r)" using Cons.prems by simp
    from Cons.IH [OF this] LeftOf show ?thesis by simp
  next
    case (RightOf l w)
    have "inorder (Node l w t) = inorder (Node l w t')" using Cons.prems by simp
    from Cons.IH [OF this] RightOf show ?thesis by simp
  qed
qed

text \<open>The parent tests of \<open>splay_step\<close>, read off the path.\<close>

lemma zip_at_tests_L:
  assumes "zip_at st v A B (LeftOf w C # fs)"
  shows "d_parent st v = w" "d_left st w = v" "w \<noteq> INVALID"
  using assms by (auto simp: zip_at_def)

lemma zip_at_tests_R:
  assumes "zip_at st v A B (RightOf C w # fs)"
  shows "d_parent st v = w" "d_right st w = v" "d_left st w \<noteq> v" "w \<noteq> INVALID"
proof -
  from assms have v: "v \<noteq> INVALID" and w: "d_parent st v = w" "d_right st w = v" "w \<noteq> INVALID"
    and c: "ptree_at st w (d_left st w) C" and d: "v \<notin> set_tree C"
    by (auto simp: zip_at_def)
  show "d_parent st v = w" "d_right st w = v" "w \<noteq> INVALID" by (rule w)+
  show "d_left st w \<noteq> v"
  proof
    assume "d_left st w = v"
    with ptree_at_root_in [OF c] v d show False by simp
  qed
qed

lemma zip_at_top: "zip_at st v A B [] \<Longrightarrow> d_parent st v = INVALID"
  by (simp add: zip_at_def)

lemma splay_step_concl:
  assumes "splay_step st v = Inr st'" "zip_at st' v A' B' fs'" "length fs' < length fs"
    and "inorder (plug (Node A' v B') fs') = inorder (plug (Node A v B) fs)"
    and "d_head st' = d_head st" "same_on (- zip_set v A B fs) st st'"
    and "zip_set v A' B' fs' = zip_set v A B fs"
  shows "\<exists>st' A' B' fs'. splay_step st v = Inr st' \<and> zip_at st' v A' B' fs' \<and>
     length fs' < length fs \<and>
     inorder (plug (Node A' v B') fs') = inorder (plug (Node A v B) fs) \<and>
     d_head st' = d_head st \<and> same_on (- zip_set v A B fs) st st' \<and>
     zip_set v A' B' fs' = zip_set v A B fs"
  using assms by blast

lemma splay_step_zip:
  assumes "zip_at st v A B fs" "fs \<noteq> []"
  shows "\<exists>st' A' B' fs'. splay_step st v = Inr st' \<and> zip_at st' v A' B' fs' \<and>
     length fs' < length fs \<and>
     inorder (plug (Node A' v B') fs') = inorder (plug (Node A v B) fs) \<and>
     d_head st' = d_head st \<and> same_on (- zip_set v A B fs) st st' \<and>
     zip_set v A' B' fs' = zip_set v A B fs"
proof -
  consider
    (zig) w C where "fs = [LeftOf w C]"
  | (zigzig) w C g D fs' where "fs = LeftOf w C # LeftOf g D # fs'"
  | (zigzag) w C g D fs' where "fs = LeftOf w C # RightOf D g # fs'"
  | (zag) w C where "fs = [RightOf C w]"
  | (zagzig) w C g D fs' where "fs = RightOf C w # LeftOf g D # fs'"
  | (zagzag) w C g D fs' where "fs = RightOf C w # RightOf D g # fs'"
  proof -
    obtain f fs1 where fs: "fs = f # fs1" using assms(2) by (cases fs) auto
    show ?thesis
    proof (cases fs1)
      case Nil
      with fs that(1,4) show ?thesis by (cases f) auto
    next
      case (Cons f2 fs2)
      with fs that(2,3,5,6) show ?thesis by (cases f; cases f2) auto
    qed
  qed
  then show ?thesis
  proof cases
    case zig
    note z = assms(1) [unfolded zig]
    note t = zip_at_tests_L [OF z]
    have top: "d_parent st w = INVALID" using zip_at_top [OF zip_up_L [OF z]] .
    have step: "splay_step st v = zig st v" using t top by (simp add: splay_step_def)
    from zig_zip [OF z] obtain st' where r: "zig st v = Inr st'" "zip_at st' v A (Node B w C) []"
      "d_head st' = d_head st"
      "same_on (- set (v # inorder A @ inorder B @ w # inorder C @ ctx_arcs [])) st st'" by blast
    have e: "- zip_set v A B fs = - set (v # inorder A @ inorder B @ w # inorder C @ ctx_arcs [])"
      by (auto simp: zip_set_def zig)
    show ?thesis
    proof (rule splay_step_concl)
      show "splay_step st v = Inr st'" using step r(1) by simp
      show "zip_at st' v (A) (Node B w C) []" by (rule r(2))
      show "length ([] :: frame list) < length fs" by (simp add: zig)
      show "inorder (plug (Node (A) v (Node B w C)) []) = inorder (plug (Node A v B) fs)"
        by (simp add: zig)
      show "d_head st' = d_head st" by (rule r(3))
      show "same_on (- zip_set v A B fs) st st'" unfolding e by (rule r(4))
      show "zip_set v (A) (Node B w C) [] = zip_set v A B fs" by (auto simp: zip_set_def zig)
    qed
  next
    case zigzig
    note z = assms(1) [unfolded zigzig]
    note t = zip_at_tests_L [OF z]
    note zu = zip_up_L [OF z]
    note tu = zip_at_tests_L [OF zu]
    have step: "splay_step st v = (case zig st w of Inl err \<Rightarrow> Inl err | Inr st \<Rightarrow> zig st v)"
      using t tu by (simp add: splay_step_def)
    from zig_zip [OF zu] obtain st1 where r1: "zig st w = Inr st1"
      "zip_at st1 w (Node A v B) (Node C g D) fs'" "d_head st1 = d_head st"
      "same_on (- set (w # inorder (Node A v B) @ inorder C @ g # inorder D @ ctx_arcs fs')) st st1" by blast
    from zig_zip [OF zip_down_L [OF r1(2)]] obtain st2 where r2: "zig st1 v = Inr st2"
      "zip_at st2 v A (Node B w (Node C g D)) fs'" "d_head st2 = d_head st1"
      "same_on (- set (v # inorder A @ inorder B @ w # inorder (Node C g D) @ ctx_arcs fs')) st1 st2" by blast
    have e1: "- zip_set v A B fs = - set (w # inorder (Node A v B) @ inorder C @ g # inorder D @ ctx_arcs fs')"
      and e2: "- zip_set v A B fs = - set (v # inorder A @ inorder B @ w # inorder (Node C g D) @ ctx_arcs fs')"
      by (auto simp: zip_set_def zigzig)
    have s: "same_on (- zip_set v A B fs) st st2"
      using r1(4) r2(4) unfolding e1 [symmetric] e2 [symmetric] by (rule same_on_trans)
    show ?thesis
    proof (rule splay_step_concl)
      show "splay_step st v = Inr st2" using step r1(1) r2(1) by simp
      show "zip_at st2 v (A) (Node B w (Node C g D)) fs'" by (rule r2(2))
      show "length fs' < length fs" by (simp add: zigzig)
      show "inorder (plug (Node (A) v (Node B w (Node C g D))) fs') = inorder (plug (Node A v B) fs)"
        unfolding zigzig plug.simps by (rule inorder_plug_cong) simp
      show "d_head st2 = d_head st" using r1(3) r2(3) by simp
      show "same_on (- zip_set v A B fs) st st2" by (rule s)
      show "zip_set v (A) (Node B w (Node C g D)) fs' = zip_set v A B fs" by (auto simp: zip_set_def zigzig)
    qed
  next
    case zigzag
    note z = assms(1) [unfolded zigzag]
    note t = zip_at_tests_L [OF z]
    note tu = zip_at_tests_R [OF zip_up_L [OF z]]
    have step: "splay_step st v = (case zig st v of Inl err \<Rightarrow> Inl err | Inr st \<Rightarrow> zag st v)"
      using t tu by (simp add: splay_step_def)
    from zig_zip [OF z] obtain st1 where r1: "zig st v = Inr st1"
      "zip_at st1 v A (Node B w C) (RightOf D g # fs')" "d_head st1 = d_head st"
      "same_on (- set (v # inorder A @ inorder B @ w # inorder C @ ctx_arcs (RightOf D g # fs'))) st st1" by blast
    from zag_zip [OF r1(2)] obtain st2 where r2: "zag st1 v = Inr st2"
      "zip_at st2 v (Node D g A) (Node B w C) fs'" "d_head st2 = d_head st1"
      "same_on (- set (v # inorder A @ inorder (Node B w C) @ g # inorder D @ ctx_arcs fs')) st1 st2" by blast
    have e1: "- zip_set v A B fs = - set (v # inorder A @ inorder B @ w # inorder C @ ctx_arcs (RightOf D g # fs'))"
      and e2: "- zip_set v A B fs = - set (v # inorder A @ inorder (Node B w C) @ g # inorder D @ ctx_arcs fs')"
      by (auto simp: zip_set_def zigzag)
    have s: "same_on (- zip_set v A B fs) st st2"
      using r1(4) r2(4) unfolding e1 [symmetric] e2 [symmetric] by (rule same_on_trans)
    show ?thesis
    proof (rule splay_step_concl)
      show "splay_step st v = Inr st2" using step r1(1) r2(1) by simp
      show "zip_at st2 v (Node D g A) (Node B w C) fs'" by (rule r2(2))
      show "length fs' < length fs" by (simp add: zigzag)
      show "inorder (plug (Node (Node D g A) v (Node B w C)) fs') = inorder (plug (Node A v B) fs)"
        unfolding zigzag plug.simps by (rule inorder_plug_cong) simp
      show "d_head st2 = d_head st" using r1(3) r2(3) by simp
      show "same_on (- zip_set v A B fs) st st2" by (rule s)
      show "zip_set v (Node D g A) (Node B w C) fs' = zip_set v A B fs" by (auto simp: zip_set_def zigzag)
    qed
  next
    case zag
    note z = assms(1) [unfolded zag]
    note t = zip_at_tests_R [OF z]
    have top: "d_parent st w = INVALID" using zip_at_top [OF zip_up_R [OF z]] .
    have step: "splay_step st v = zag st v" using t top by (simp add: splay_step_def)
    from zag_zip [OF z] obtain st' where r: "zag st v = Inr st'" "zip_at st' v (Node C w A) B []"
      "d_head st' = d_head st"
      "same_on (- set (v # inorder A @ inorder B @ w # inorder C @ ctx_arcs [])) st st'" by blast
    have e: "- zip_set v A B fs = - set (v # inorder A @ inorder B @ w # inorder C @ ctx_arcs [])"
      by (auto simp: zip_set_def zag)
    show ?thesis
    proof (rule splay_step_concl)
      show "splay_step st v = Inr st'" using step r(1) by simp
      show "zip_at st' v (Node C w A) (B) []" by (rule r(2))
      show "length ([] :: frame list) < length fs" by (simp add: zag)
      show "inorder (plug (Node (Node C w A) v (B)) []) = inorder (plug (Node A v B) fs)"
        by (simp add: zag)
      show "d_head st' = d_head st" by (rule r(3))
      show "same_on (- zip_set v A B fs) st st'" unfolding e by (rule r(4))
      show "zip_set v (Node C w A) (B) [] = zip_set v A B fs" by (auto simp: zip_set_def zag)
    qed
  next
    case zagzig
    note z = assms(1) [unfolded zagzig]
    note t = zip_at_tests_R [OF z]
    note tu = zip_at_tests_L [OF zip_up_R [OF z]]
    have step: "splay_step st v = (case zag st v of Inl err \<Rightarrow> Inl err | Inr st \<Rightarrow> zig st v)"
      using t tu by (simp add: splay_step_def)
    from zag_zip [OF z] obtain st1 where r1: "zag st v = Inr st1"
      "zip_at st1 v (Node C w A) B (LeftOf g D # fs')" "d_head st1 = d_head st"
      "same_on (- set (v # inorder A @ inorder B @ w # inorder C @ ctx_arcs (LeftOf g D # fs'))) st st1" by blast
    from zig_zip [OF r1(2)] obtain st2 where r2: "zig st1 v = Inr st2"
      "zip_at st2 v (Node C w A) (Node B g D) fs'" "d_head st2 = d_head st1"
      "same_on (- set (v # inorder (Node C w A) @ inorder B @ g # inorder D @ ctx_arcs fs')) st1 st2" by blast
    have e1: "- zip_set v A B fs = - set (v # inorder A @ inorder B @ w # inorder C @ ctx_arcs (LeftOf g D # fs'))"
      and e2: "- zip_set v A B fs = - set (v # inorder (Node C w A) @ inorder B @ g # inorder D @ ctx_arcs fs')"
      by (auto simp: zip_set_def zagzig)
    have s: "same_on (- zip_set v A B fs) st st2"
      using r1(4) r2(4) unfolding e1 [symmetric] e2 [symmetric] by (rule same_on_trans)
    show ?thesis
    proof (rule splay_step_concl)
      show "splay_step st v = Inr st2" using step r1(1) r2(1) by simp
      show "zip_at st2 v (Node C w A) (Node B g D) fs'" by (rule r2(2))
      show "length fs' < length fs" by (simp add: zagzig)
      show "inorder (plug (Node (Node C w A) v (Node B g D)) fs') = inorder (plug (Node A v B) fs)"
        unfolding zagzig plug.simps by (rule inorder_plug_cong) simp
      show "d_head st2 = d_head st" using r1(3) r2(3) by simp
      show "same_on (- zip_set v A B fs) st st2" by (rule s)
      show "zip_set v (Node C w A) (Node B g D) fs' = zip_set v A B fs" by (auto simp: zip_set_def zagzig)
    qed
  next
    case zagzag
    note z = assms(1) [unfolded zagzag]
    note t = zip_at_tests_R [OF z]
    note zu = zip_up_R [OF z]
    note tu = zip_at_tests_R [OF zu]
    have step: "splay_step st v = (case zag st w of Inl err \<Rightarrow> Inl err | Inr st \<Rightarrow> zag st v)"
      using t tu by (simp add: splay_step_def)
    from zag_zip [OF zu] obtain st1 where r1: "zag st w = Inr st1"
      "zip_at st1 w (Node D g C) (Node A v B) fs'" "d_head st1 = d_head st"
      "same_on (- set (w # inorder C @ inorder (Node A v B) @ g # inorder D @ ctx_arcs fs')) st st1" by blast
    from zag_zip [OF zip_down_R [OF r1(2)]] obtain st2 where r2: "zag st1 v = Inr st2"
      "zip_at st2 v (Node (Node D g C) w A) B fs'" "d_head st2 = d_head st1"
      "same_on (- set (v # inorder A @ inorder B @ w # inorder (Node D g C) @ ctx_arcs fs')) st1 st2" by blast
    have e1: "- zip_set v A B fs = - set (w # inorder C @ inorder (Node A v B) @ g # inorder D @ ctx_arcs fs')"
      and e2: "- zip_set v A B fs = - set (v # inorder A @ inorder B @ w # inorder (Node D g C) @ ctx_arcs fs')"
      by (auto simp: zip_set_def zagzag)
    have s: "same_on (- zip_set v A B fs) st st2"
      using r1(4) r2(4) unfolding e1 [symmetric] e2 [symmetric] by (rule same_on_trans)
    show ?thesis
    proof (rule splay_step_concl)
      show "splay_step st v = Inr st2" using step r1(1) r2(1) by simp
      show "zip_at st2 v (Node (Node D g C) w A) (B) fs'" by (rule r2(2))
      show "length fs' < length fs" by (simp add: zagzag)
      show "inorder (plug (Node (Node (Node D g C) w A) v (B)) fs') = inorder (plug (Node A v B) fs)"
        unfolding zagzag plug.simps by (rule inorder_plug_cong) simp
      show "d_head st2 = d_head st" using r1(3) r2(3) by simp
      show "same_on (- zip_set v A B fs) st st2" by (rule s)
      show "zip_set v (Node (Node D g C) w A) (B) fs' = zip_set v A B fs" by (auto simp: zip_set_def zagzag)
    qed
  qed
qed

lemma zip_at_parent: "zip_at st v A B (f # fs) \<Longrightarrow> d_parent st v \<noteq> INVALID"
  by (cases f) (auto simp: zip_at_def)

lemma zip_at_not_INVALID: "zip_at st v A B fs \<Longrightarrow> v \<noteq> INVALID"
  by (simp add: zip_at_def)

lemma splay_loop_zip:
  "zip_at st v A B fs \<Longrightarrow>
   \<exists>st' A' B'. splay_loop st v = Some (Inr st') \<and> zip_at st' v A' B' [] \<and>
     inorder (Node A' v B') = inorder (plug (Node A v B) fs) \<and> d_head st' = d_head st \<and>
     same_on (- zip_set v A B fs) st st' \<and> zip_set v A' B' [] = zip_set v A B fs"
proof (induction "length fs" arbitrary: st A B fs rule: less_induct)
  case less
  note v = zip_at_not_INVALID [OF less.prems]
  show ?case
  proof (cases fs)
    case Nil
    then have "d_parent st v = INVALID" using less.prems by (simp add: zip_at_def)
    then have "splay_loop st v = Some (Inr st)" using v by (subst splay_loop.simps) simp
    then show ?thesis using less.prems Nil same_on_refl by auto
  next
    case (Cons f fs0)
    then have ne: "fs \<noteq> []" by simp
    have p: "d_parent st v \<noteq> INVALID" using less.prems Cons zip_at_parent by blast
    from splay_step_zip [OF less.prems ne]
    obtain st1 A1 B1 fs1 where s1: "splay_step st v = Inr st1" and z1: "zip_at st1 v A1 B1 fs1"
      and l1: "length fs1 < length fs"
      and i1: "inorder (plug (Node A1 v B1) fs1) = inorder (plug (Node A v B) fs)"
      and h1: "d_head st1 = d_head st" and f1: "same_on (- zip_set v A B fs) st st1"
      and e1: "zip_set v A1 B1 fs1 = zip_set v A B fs" by blast
    from less.hyps [OF l1 z1]
    obtain st' A' B' where s2: "splay_loop st1 v = Some (Inr st')" and z2: "zip_at st' v A' B' []"
      and i2: "inorder (Node A' v B') = inorder (plug (Node A1 v B1) fs1)"
      and h2: "d_head st' = d_head st1" and f2: "same_on (- zip_set v A1 B1 fs1) st1 st'"
      and e2: "zip_set v A' B' [] = zip_set v A1 B1 fs1" by blast
    have "splay_loop st v = splay_loop st1 v" using v p s1 by (subst splay_loop.simps) simp
    moreover have "same_on (- zip_set v A B fs) st st'"
      using f1 f2 unfolding e1 by (rule same_on_trans)
    ultimately show ?thesis using s2 z2 i1 i2 h1 h2 e1 e2 by auto
  qed
qed

lemma plug_append: "plug t (fs @ gs) = plug (plug t fs) gs"
proof (induction fs arbitrary: t)
  case Nil
  then show ?case by simp
next
  case (Cons f fs)
  then show ?case by (cases f) simp_all
qed

lemma mset_inorder_plug: "mset (inorder (plug t fs)) = mset (inorder t) + mset (ctx_arcs fs)"
proof (induction fs arbitrary: t)
  case Nil
  then show ?case by simp
next
  case (Cons f fs)
  then show ?case by (cases f) simp_all
qed

lemma ptree_focus_gen:
  "ptree_at st p r T \<Longrightarrow> v \<in> set_tree T \<Longrightarrow> path_at st r fs0 \<Longrightarrow>
   \<exists>A B fs. v \<noteq> INVALID \<and> ptree_at st v (d_left st v) A \<and> ptree_at st v (d_right st v) B \<and>
      path_at st v (fs @ fs0) \<and> plug (Node A v B) fs = T"
proof (induction T arbitrary: p r fs0)
  case Leaf
  then show ?case by simp
next
  case (Node L x R)
  from Node.prems(1) have r: "r = x" "x \<noteq> INVALID" "d_parent st x = p"
    and tl: "ptree_at st x (d_left st x) L" and tr: "ptree_at st x (d_right st x) R" by auto
  consider (root) "v = x" | (left) "v \<in> set_tree L" | (right) "v \<in> set_tree R"
    using Node.prems(2) by auto
  then show ?case
  proof cases
    case root
    have "path_at st v ([] @ fs0)" using Node.prems(3) r root by simp
    moreover have "plug (Node L v R) [] = Node L x R" using root by simp
    ultimately show ?thesis using r tl tr root by blast
  next
    case left
    define l where "l = d_left st x"
    have tl': "ptree_at st x l L" using tl by (simp add: l_def)
    have ln: "l \<noteq> INVALID" using ptree_at_Leaf_iff [OF tl'] left by auto
    have lp: "d_parent st l = x" using ptree_at_root_parent [OF tl' ln] .
    have "path_at st l (LeftOf x R # fs0)"
      using lp r tr Node.prems(3) by (simp add: l_def)
    from Node.IH(1) [OF tl' left this]
    obtain A B fs where "v \<noteq> INVALID" "ptree_at st v (d_left st v) A" "ptree_at st v (d_right st v) B"
      "path_at st v (fs @ LeftOf x R # fs0)" "plug (Node A v B) fs = L" by blast
    then have "path_at st v ((fs @ [LeftOf x R]) @ fs0)"
      "plug (Node A v B) (fs @ [LeftOf x R]) = Node L x R"
      by (simp_all add: plug_append)
    with \<open>v \<noteq> INVALID\<close> \<open>ptree_at st v (d_left st v) A\<close> \<open>ptree_at st v (d_right st v) B\<close>
    show ?thesis by blast
  next
    case right
    define l where "l = d_right st x"
    have tr': "ptree_at st x l R" using tr by (simp add: l_def)
    have ln: "l \<noteq> INVALID" using ptree_at_Leaf_iff [OF tr'] right by auto
    have lp: "d_parent st l = x" using ptree_at_root_parent [OF tr' ln] .
    have "path_at st l (RightOf L x # fs0)"
      using lp r tl Node.prems(3) by (simp add: l_def)
    from Node.IH(2) [OF tr' right this]
    obtain A B fs where "v \<noteq> INVALID" "ptree_at st v (d_left st v) A" "ptree_at st v (d_right st v) B"
      "path_at st v (fs @ RightOf L x # fs0)" "plug (Node A v B) fs = R" by blast
    then have "path_at st v ((fs @ [RightOf L x]) @ fs0)"
      "plug (Node A v B) (fs @ [RightOf L x]) = Node L x R"
      by (simp_all add: plug_append)
    with \<open>v \<noteq> INVALID\<close> \<open>ptree_at st v (d_left st v) A\<close> \<open>ptree_at st v (d_right st v) B\<close>
    show ?thesis by blast
  qed
qed

lemma zip_set_plug: "zip_set v A B fs = set_tree (plug (Node A v B) fs)"
proof -
  have "set_mset (mset (inorder (plug (Node A v B) fs))) =
        set_mset (mset (inorder (Node A v B)) + mset (ctx_arcs fs))"
    by (simp only: mset_inorder_plug)
  then show ?thesis by (auto simp: zip_set_def)
qed

lemma distinct_plug:
  "distinct (inorder (plug (Node A v B) fs)) = distinct (v # inorder A @ inorder B @ ctx_arcs fs)"
proof -
  have "mset (inorder (plug (Node A v B) fs)) = mset (v # inorder A @ inorder B @ ctx_arcs fs)"
    by (simp add: mset_inorder_plug)
  then show ?thesis by (rule mset_eq_imp_distinct_iff)
qed

lemma ptree_focus:
  assumes "ptree_at st INVALID r T" "distinct (inorder T)" "v \<in> set_tree T"
  shows "\<exists>A B fs. zip_at st v A B fs \<and> plug (Node A v B) fs = T"
proof -
  have rn: "r \<noteq> INVALID" using ptree_at_Leaf_iff [OF assms(1)] assms(3) by auto
  have "path_at st r []" using ptree_at_root_parent [OF assms(1) rn] by simp
  from ptree_focus_gen [OF assms(1) assms(3) this]
  obtain A B fs where f: "v \<noteq> INVALID" "ptree_at st v (d_left st v) A"
    "ptree_at st v (d_right st v) B" "path_at st v fs" "plug (Node A v B) fs = T" by auto
  have "distinct (v # inorder A @ inorder B @ ctx_arcs fs)"
    using assms(2) f(5) distinct_plug by metis
  with f show ?thesis unfolding zip_at_def by blast
qed

lemma zip_top_ptree: "zip_at st v A B [] \<Longrightarrow> ptree_at st INVALID v (Node A v B)"
  by (simp add: zip_at_def)

lemma splay_zip:
  assumes "zip_at st v A B fs" "source g v = Inr s"
  shows "\<exists>st' T'. splay g st v = Some (Inr st') \<and> ptree_at st' INVALID v T' \<and>
     inorder T' = inorder (plug (Node A v B) fs) \<and> d_head st' = (d_head st)(s := v) \<and>
     same_on (- zip_set v A B fs) st st'"
proof -
  from splay_loop_zip [OF assms(1)]
  obtain st1 A' B' where s: "splay_loop st v = Some (Inr st1)" and z: "zip_at st1 v A' B' []"
    and i: "inorder (Node A' v B') = inorder (plug (Node A v B) fs)" and h: "d_head st1 = d_head st"
    and f: "same_on (- zip_set v A B fs) st st1" by blast
  have r: "splay g st v = Some (Inr (head_set st1 s v))"
    using s assms(2) by (simp add: splay_def)
  have "ptree_at (head_set st1 s v) INVALID v (Node A' v B')"
    by (rule ptree_at_frame [OF zip_top_ptree [OF z]]) (simp add: head_set_def)
  moreover have "same_on (- zip_set v A B fs) st (head_set st1 s v)"
    using f by (simp add: same_on_def head_set_def)
  moreover have "d_head (head_set st1 s v) = (d_head st)(s := v)"
    using h by (simp add: head_set_def)
  ultimately show ?thesis using r i by blast
qed

lemma splay_ptree:
  assumes "ptree_at st INVALID r T" "distinct (inorder T)" "v \<in> set_tree T" "source g v = Inr s"
  shows "\<exists>st' T'. splay g st v = Some (Inr st') \<and> ptree_at st' INVALID v T' \<and>
     inorder T' = inorder T \<and> d_head st' = (d_head st)(s := v) \<and>
     same_on (- set_tree T) st st'"
proof -
  from ptree_focus [OF assms(1-3)] obtain A B fs where z: "zip_at st v A B fs"
    and p: "plug (Node A v B) fs = T" by blast
  from splay_zip [OF z assms(4)] show ?thesis
    unfolding zip_set_plug p by blast
qed

lemma inorder_plug: "inorder (plug t fs) = lefts fs @ inorder t @ rights fs"
proof (induction fs arbitrary: t)
  case Nil
  then show ?case by simp
next
  case (Cons f fs)
  then show ?case by (cases f) simp_all
qed

lemma sorted_wrt_drop_middle: "sorted_wrt P (xs @ ys @ zs) \<Longrightarrow> sorted_wrt P (xs @ zs)"
  by (auto simp: sorted_wrt_append)

lemma strict_weak_asym: "strict_weak lt \<Longrightarrow> lt x y \<Longrightarrow> \<not> lt y x"
  unfolding strict_weak_def by (elim conjE allE [of _ x] allE [of _ y]) simp

lemma strict_weak_ntrans: "strict_weak lt \<Longrightarrow> \<not> lt x y \<Longrightarrow> \<not> lt y z \<Longrightarrow> \<not> lt x z"
  unfolding strict_weak_def
  by (elim conjE)
    (erule thin_rl, erule allE [of _ x], erule allE [of _ y], erule allE [of _ z], simp)

lemma ctx_bounds:
  assumes st: "strict_weak (node_less g)"
  shows "ctx_ok g t fs \<Longrightarrow> sorted_wrt (\<lambda>a b. \<not> ArcLess g b a) (lefts fs @ rights fs) \<Longrightarrow>
     (\<forall>x \<in> set (lefts fs). \<not> node_less g t (arc_target g x)) \<and>
     (\<forall>y \<in> set (rights fs). \<not> node_less g (arc_target g y) t)"
proof (induction fs)
  case Nil
  then show ?case by simp
next
  case (Cons f fs)
  note asym = strict_weak_asym [OF st]
  note nt = strict_weak_ntrans [OF st]
  have tr: "node_less g x z" if xy: "node_less g x y" and yz: "node_less g y z" for x y z
  proof (rule ccontr)
    assume "\<not> node_less g x z"
    from nt [OF this asym [OF yz]] xy show False by simp
  qed
  show ?case
  proof (cases f)
    case (LeftOf w r)
    with Cons.prems have lt: "node_less g t (arc_target g w)" and ok: "ctx_ok g t fs"
      and so: "sorted_wrt (\<lambda>a b. \<not> ArcLess g b a) (lefts fs @ (w # inorder r) @ rights fs)" by auto
    from Cons.IH [OF ok sorted_wrt_drop_middle [OF so]]
    have IH: "\<forall>x \<in> set (lefts fs). \<not> node_less g t (arc_target g x)"
      "\<forall>y \<in> set (rights fs). \<not> node_less g (arc_target g y) t" by auto
    have w: "\<not> node_less g (arc_target g w) t" by (rule asym [OF lt])
    have "\<forall>y \<in> set (inorder r). \<not> node_less g (arc_target g y) (arc_target g w)"
      using so by (auto simp: sorted_wrt_append ArcLess_def)
    then have "\<forall>y \<in> set (inorder r). \<not> node_less g (arc_target g y) t"
      using tr [OF _ lt] by (auto intro: contrapos_nn)
    with IH w LeftOf show ?thesis by auto
  next
    case (RightOf l w)
    with Cons.prems have lt: "\<not> node_less g t (arc_target g w)" and ok: "ctx_ok g t fs"
      and so: "sorted_wrt (\<lambda>a b. \<not> ArcLess g b a) (lefts fs @ (inorder l @ [w]) @ rights fs)" by auto
    from Cons.IH [OF ok sorted_wrt_drop_middle [OF so]]
    have IH: "\<forall>x \<in> set (lefts fs). \<not> node_less g t (arc_target g x)"
      "\<forall>y \<in> set (rights fs). \<not> node_less g (arc_target g y) t" by auto
    have "\<forall>x \<in> set (inorder l). \<not> node_less g (arc_target g w) (arc_target g x)"
      using so by (auto simp: sorted_wrt_append ArcLess_def)
    then have "\<forall>x \<in> set (inorder l). \<not> node_less g t (arc_target g x)"
      using nt [OF lt] by simp
    with IH lt RightOf show ?thesis by auto
  qed
qed

lemma sorted_insert_ctx:
  assumes "strict_weak (node_less g)" "ctx_ok g (arc_target g arc) fs"
    and "sorted_wrt (\<lambda>a b. \<not> ArcLess g b a) (inorder (plug Leaf fs))"
  shows "sorted_wrt (\<lambda>a b. \<not> ArcLess g b a) (inorder (plug (Node Leaf arc Leaf) fs))"
proof -
  have s: "sorted_wrt (\<lambda>a b. \<not> ArcLess g b a) (lefts fs @ rights fs)"
    using assms(3) by (simp add: inorder_plug)
  from ctx_bounds [OF assms(1,2) s]
  have "\<forall>x \<in> set (lefts fs). \<not> ArcLess g arc x" "\<forall>y \<in> set (rights fs). \<not> ArcLess g y arc"
    by (auto simp: ArcLess_def)
  with s show ?thesis by (auto simp: inorder_plug sorted_wrt_append)
qed

lemma same_on_attach_left:
  "x \<notin> X \<Longrightarrow> arc \<notin> X \<Longrightarrow> same_on X st (parent_set (left_set st x arc) arc x)"
  by (auto simp: same_on_def parent_set_def left_set_def)

lemma same_on_attach_right:
  "x \<notin> X \<Longrightarrow> arc \<notin> X \<Longrightarrow> same_on X st (parent_set (right_set st x arc) arc x)"
  by (auto simp: same_on_def parent_set_def right_set_def)

lemma attach_left_zip:
  assumes "arc \<noteq> INVALID" "d_left st arc = INVALID" "d_right st arc = INVALID"
    and "x \<noteq> INVALID" "ptree_at st x (d_right st x) R" "path_at st x fs"
    and "distinct (arc # x # inorder R @ ctx_arcs fs)"
  shows "zip_at (parent_set (left_set st x arc) arc x) arc Leaf Leaf (LeftOf x R # fs)"
proof -
  let ?st = "parent_set (left_set st x arc) arc x"
  have ax: "arc \<noteq> x" using assms(7) by auto
  have f: "d_left ?st arc = INVALID" "d_right ?st arc = INVALID" "d_parent ?st arc = x"
    "d_left ?st x = arc" "d_right ?st x = d_right st x" "d_parent ?st x = d_parent st x"
    using assms(2,3) ax by (auto simp: parent_set_def left_set_def)
  have "same_on (set_tree R) st ?st" using assms(7) by (intro same_on_attach_left) auto
  then have r: "ptree_at ?st x (d_right st x) R" by (rule ptree_at_same_on [OF assms(5)])
  have "same_on (set (ctx_arcs fs)) st ?st" using assms(7) by (intro same_on_attach_left) auto
  then have p: "path_at ?st x fs" by (rule path_at_same_on [OF assms(6) f(6)])
  have d: "distinct (arc # inorder Leaf @ inorder Leaf @ ctx_arcs (LeftOf x R # fs))"
    using assms(7) by simp
  show ?thesis unfolding zip_at_def using assms(1,4) f r p d by simp
qed

lemma attach_right_zip:
  assumes "arc \<noteq> INVALID" "d_left st arc = INVALID" "d_right st arc = INVALID"
    and "x \<noteq> INVALID" "ptree_at st x (d_left st x) L" "path_at st x fs"
    and "distinct (arc # x # inorder L @ ctx_arcs fs)"
  shows "zip_at (parent_set (right_set st x arc) arc x) arc Leaf Leaf (RightOf L x # fs)"
proof -
  let ?st = "parent_set (right_set st x arc) arc x"
  have ax: "arc \<noteq> x" using assms(7) by auto
  have f: "d_left ?st arc = INVALID" "d_right ?st arc = INVALID" "d_parent ?st arc = x"
    "d_right ?st x = arc" "d_left ?st x = d_left st x" "d_parent ?st x = d_parent st x"
    using assms(2,3) ax by (auto simp: parent_set_def right_set_def)
  have "same_on (set_tree L) st ?st" using assms(7) by (intro same_on_attach_right) auto
  then have r: "ptree_at ?st x (d_left st x) L" by (rule ptree_at_same_on [OF assms(5)])
  have "same_on (set (ctx_arcs fs)) st ?st" using assms(7) by (intro same_on_attach_right) auto
  then have p: "path_at ?st x fs" by (rule path_at_same_on [OF assms(6) f(6)])
  have d: "distinct (arc # inorder Leaf @ inorder Leaf @ ctx_arcs (RightOf L x # fs))"
    using assms(7) by simp
  show ?thesis unfolding zip_at_def using assms(1,4) f r p d by simp
qed

lemma insert_loop_zip:
  assumes arc: "arc \<noteq> INVALID" "d_left st arc = INVALID" "d_right st arc = INVALID"
  shows "ptree_at st p e T \<Longrightarrow> e \<noteq> INVALID \<Longrightarrow> path_at st e fs \<Longrightarrow>
     distinct (arc # inorder T @ ctx_arcs fs) \<Longrightarrow> (\<And>x. x \<in> set_tree T \<Longrightarrow> valid_arc g x) \<Longrightarrow>
     ctx_ok g t fs \<Longrightarrow>
     \<exists>st1 fs1. insert_loop g st arc t e = splay g st1 arc \<and> zip_at st1 arc Leaf Leaf fs1 \<and>
       plug Leaf fs1 = plug T fs \<and> ctx_ok g t fs1 \<and> d_head st1 = d_head st \<and>
       same_on (- insert arc (set_tree T \<union> set (ctx_arcs fs))) st st1"
proof (induction T arbitrary: p e fs)
  case Leaf
  then show ?case by simp
next
  case (Node L x R)
  from Node.prems(1) have e: "e = x" and x: "x \<noteq> INVALID"
    and tl: "ptree_at st x (d_left st x) L" and tr: "ptree_at st x (d_right st x) R" by auto
  have px: "path_at st x fs" using Node.prems(3) e by simp
  have tx: "target g x = Inr (arc_target g x)" using Node.prems(5) by (simp add: target_def)
  note dist = Node.prems(4)
  define l where "l = d_left st x"
  define r where "r = d_right st x"
  have tl': "ptree_at st x l L" and tr': "ptree_at st x r R" using tl tr by (simp_all add: l_def r_def)
  show ?case
  proof (cases "node_less g t (arc_target g x)")
    case True
    show ?thesis
    proof (cases "l = INVALID")
      case l: True
      then have L: "L = Leaf" using ptree_at_Leaf_iff [OF tl'] by simp
      let ?st = "parent_set (left_set st x arc) arc x"
      have step: "insert_loop g st arc t e = splay g ?st arc"
        using e tx True l by (subst insert_loop.simps) (simp add: l_def)
      have d: "distinct (arc # x # inorder R @ ctx_arcs fs)" using dist L by simp
      have z: "zip_at ?st arc Leaf Leaf (LeftOf x R # fs)"
        by (rule attach_left_zip [OF arc x tr px d])
      have "same_on (- insert arc (set_tree (Node L x R) \<union> set (ctx_arcs fs))) st ?st"
        by (rule same_on_attach_left) auto
      moreover have "ctx_ok g t (LeftOf x R # fs)" using True Node.prems(6) by simp
      moreover have "plug Leaf (LeftOf x R # fs) = plug (Node L x R) fs" using L by simp
      moreover have "d_head ?st = d_head st" by (simp add: parent_set_def left_set_def)
      ultimately show ?thesis using step z by blast
    next
      case l: False
      have step: "insert_loop g st arc t e = insert_loop g st arc t l"
        using e tx True l by (subst insert_loop.simps) (simp add: l_def)
      have pl: "path_at st l (LeftOf x R # fs)"
        using ptree_at_root_parent [OF tl' l] x tr px by (simp add: l_def)
      have d: "distinct (arc # inorder L @ ctx_arcs (LeftOf x R # fs))" using dist by auto
      have v: "\<And>y. y \<in> set_tree L \<Longrightarrow> valid_arc g y" using Node.prems(5) by simp
      have ok: "ctx_ok g t (LeftOf x R # fs)" using True Node.prems(6) by simp
      from Node.IH(1) [OF tl' l pl d v ok]
      obtain st1 fs1 where r: "insert_loop g st arc t l = splay g st1 arc"
        "zip_at st1 arc Leaf Leaf fs1" "plug Leaf fs1 = plug L (LeftOf x R # fs)" "ctx_ok g t fs1"
        "d_head st1 = d_head st"
        "same_on (- insert arc (set_tree L \<union> set (ctx_arcs (LeftOf x R # fs)))) st st1" by blast
      have "- insert arc (set_tree (Node L x R) \<union> set (ctx_arcs fs)) =
            - insert arc (set_tree L \<union> set (ctx_arcs (LeftOf x R # fs)))" by auto
      with r step show ?thesis by (intro exI [of _ st1] exI [of _ fs1]) simp
    qed
  next
    case False
    show ?thesis
    proof (cases "r = INVALID")
      case r: True
      then have R: "R = Leaf" using ptree_at_Leaf_iff [OF tr'] by simp
      let ?st = "parent_set (right_set st x arc) arc x"
      have step: "insert_loop g st arc t e = splay g ?st arc"
        using e tx False r by (subst insert_loop.simps) (simp add: r_def)
      have d: "distinct (arc # x # inorder L @ ctx_arcs fs)" using dist R by simp
      have z: "zip_at ?st arc Leaf Leaf (RightOf L x # fs)"
        by (rule attach_right_zip [OF arc x tl px d])
      have "same_on (- insert arc (set_tree (Node L x R) \<union> set (ctx_arcs fs))) st ?st"
        by (rule same_on_attach_right) auto
      moreover have "ctx_ok g t (RightOf L x # fs)" using False Node.prems(6) by simp
      moreover have "plug Leaf (RightOf L x # fs) = plug (Node L x R) fs" using R by simp
      moreover have "d_head ?st = d_head st" by (simp add: parent_set_def right_set_def)
      ultimately show ?thesis using step z by blast
    next
      case r: False
      have step: "insert_loop g st arc t e = insert_loop g st arc t r"
        using e tx False r by (subst insert_loop.simps) (simp add: r_def)
      have pl: "path_at st r (RightOf L x # fs)"
        using ptree_at_root_parent [OF tr' r] x tl px by (simp add: r_def)
      have d: "distinct (arc # inorder R @ ctx_arcs (RightOf L x # fs))" using dist by auto
      have v: "\<And>y. y \<in> set_tree R \<Longrightarrow> valid_arc g y" using Node.prems(5) by simp
      have ok: "ctx_ok g t (RightOf L x # fs)" using False Node.prems(6) by simp
      from Node.IH(2) [OF tr' r pl d v ok]
      obtain st1 fs1 where rr: "insert_loop g st arc t r = splay g st1 arc"
        "zip_at st1 arc Leaf Leaf fs1" "plug Leaf fs1 = plug R (RightOf L x # fs)" "ctx_ok g t fs1"
        "d_head st1 = d_head st"
        "same_on (- insert arc (set_tree R \<union> set (ctx_arcs (RightOf L x # fs)))) st st1" by blast
      have "- insert arc (set_tree (Node L x R) \<union> set (ctx_arcs fs)) =
            - insert arc (set_tree R \<union> set (ctx_arcs (RightOf L x # fs)))" by auto
      with rr step show ?thesis by (intro exI [of _ st1] exI [of _ fs1]) simp
    qed
  qed
qed

lemma sorted_search_tree:
  assumes st: "strict_weak (node_less g)"
  shows "search_tree g T \<Longrightarrow> sorted_wrt (\<lambda>a b. \<not> ArcLess g b a) (inorder T)"
proof (induction T)
  case Leaf
  then show ?case by simp
next
  case (Node l x r)
  note asym = strict_weak_asym [OF st]
  note nt = strict_weak_ntrans [OF st]
  have tr: "node_less g x z" if xy: "node_less g x y" and yz: "node_less g y z" for x y z
  proof (rule ccontr)
    assume "\<not> node_less g x z"
    from nt [OF this asym [OF yz]] xy show False by simp
  qed
  from Node.prems have a: "\<forall>y \<in> set_tree l. \<not> node_less g (arc_target g x) (arc_target g y)"
    and b: "\<forall>y \<in> set_tree r. \<not> node_less g (arc_target g y) (arc_target g x)"
    and sl: "search_tree g l" and sr: "search_tree g r" by auto
  have c: "\<not> node_less g (arc_target g z) (arc_target g y)"
    if "y \<in> set_tree l" "z \<in> set_tree r" for y z
  proof
    assume lt: "node_less g (arc_target g z) (arc_target g y)"
    have 1: "\<not> node_less g (arc_target g x) (arc_target g y)" using a that(1) by simp
    have 2: "\<not> node_less g (arc_target g z) (arc_target g x)" using b that(2) by simp
    from nt [OF 2 1] lt show False by simp
  qed
  show ?case using Node.IH(1) [OF sl] Node.IH(2) [OF sr] a b c
    by (auto simp: sorted_wrt_append ArcLess_def)
qed

lemma insert_arc_tree:
  assumes T: "ptree_at st INVALID (d_head st s) T" and dT: "distinct (inorder T)"
    and nT: "arc \<notin> set_tree T" and arc: "arc \<noteq> INVALID"
    and src: "source g arc = Inr s" and tgt: "target g arc = Inr (arc_target g arc)"
    and val: "\<And>x. x \<in> set_tree T \<Longrightarrow> valid_arc g x"
    and tot: "strict_weak (node_less g)"
    and sT: "sorted_wrt (\<lambda>a b. \<not> ArcLess g b a) (inorder T)"
  shows "\<exists>st' T'. insert_arc g st arc = Some (Inr st') \<and> ptree_at st' INVALID (d_head st' s) T' \<and>
     distinct (inorder T') \<and> set_tree T' = insert arc (set_tree T) \<and>
     sorted_wrt (\<lambda>a b. \<not> ArcLess g b a) (inorder T') \<and>
     (\<forall>n. n \<noteq> s \<longrightarrow> d_head st' n = d_head st n) \<and>
     same_on (- insert arc (set_tree T)) st st'"
proof -
  define st0 where "st0 = right_set (left_set st arc INVALID) arc INVALID"
  define e where "e = d_head st s"
  define t where "t = arc_target g arc"
  have f0: "d_left st0 arc = INVALID" "d_right st0 arc = INVALID" "d_head st0 = d_head st"
    "d_parent st0 = d_parent st"
    by (simp_all add: st0_def right_set_def left_set_def)
  have s0: "same_on (- {arc}) st st0"
    by (simp add: same_on_def st0_def right_set_def left_set_def)
  have s0': "same_on (- insert arc (set_tree T)) st st0"
    by (rule same_on_subset [OF s0]) auto
  have "same_on (set_tree T) st st0" by (rule same_on_subset [OF s0]) (use nT in auto)
  then have T0: "ptree_at st0 INVALID e T" using T by (simp add: e_def ptree_at_same_on)
  have unf: "insert_arc g st arc =
      (if e = INVALID then Some (Inr (parent_set (head_set st0 s arc) arc INVALID))
       else insert_loop g st0 arc t e)"
    by (simp add: insert_arc_def src tgt Let_def st0_def e_def t_def right_set_def left_set_def)
  show ?thesis
  proof (cases "e = INVALID")
    case True
    then have L: "T = Leaf" using ptree_at_Leaf_iff [OF T0] by simp
    let ?st = "parent_set (head_set st0 s arc) arc INVALID"
    have "ptree_at ?st INVALID (d_head ?st s) (Node Leaf arc Leaf)"
      using arc f0 by (simp add: parent_set_def head_set_def)
    moreover have "same_on (- insert arc (set_tree T)) st ?st"
      using s0' by (simp add: same_on_def parent_set_def head_set_def)
    moreover have "\<forall>n. n \<noteq> s \<longrightarrow> d_head ?st n = d_head st n"
      using f0 by (simp add: parent_set_def head_set_def)
    moreover have "insert_arc g st arc = Some (Inr ?st)" using unf True by simp
    ultimately show ?thesis using L
      by (intro exI [of _ ?st] exI [of _ "Node Leaf arc Leaf"]) simp
  next
    case False
    have p: "path_at st0 e []" using ptree_at_root_parent [OF T0 False] by simp
    have d: "distinct (arc # inorder T @ ctx_arcs [])" using dT nT by simp
    have ok: "ctx_ok g t []" by simp
    from insert_loop_zip [OF arc f0(1) f0(2) T0 False p d val ok]
    obtain st1 fs1 where il: "insert_loop g st0 arc t e = splay g st1 arc"
      and z: "zip_at st1 arc Leaf Leaf fs1" and pl: "plug Leaf fs1 = T" and ok1: "ctx_ok g t fs1"
      and h1: "d_head st1 = d_head st0"
      and s1: "same_on (- insert arc (set_tree T \<union> set (ctx_arcs []))) st0 st1" by auto
    from splay_zip [OF z src]
    obtain st' T' where sp: "splay g st1 arc = Some (Inr st')" and T': "ptree_at st' INVALID arc T'"
      and io: "inorder T' = inorder (plug (Node Leaf arc Leaf) fs1)"
      and h': "d_head st' = (d_head st1)(s := arc)"
      and s2: "same_on (- zip_set arc Leaf Leaf fs1) st1 st'" by blast
    have sT': "set_tree T = set (ctx_arcs fs1)"
    proof -
      have "mset (inorder T) = mset (ctx_arcs fs1)"
        using mset_inorder_plug [of Leaf fs1] pl by simp
      then have "set (inorder T) = set (ctx_arcs fs1)" by (rule mset_eq_setD)
      then show ?thesis by simp
    qed
    have zs: "zip_set arc Leaf Leaf fs1 = insert arc (set_tree T)"
      by (simp add: zip_set_def sT')
    have r1: "insert_arc g st arc = Some (Inr st')" using unf False il sp by simp
    have r2: "ptree_at st' INVALID (d_head st' s) T'" using T' h' by simp
    have r3: "distinct (inorder T')"
      using z by (simp add: io distinct_plug zip_at_def)
    have "set_tree T' = set (inorder (plug (Node Leaf arc Leaf) fs1))"
      using io by (metis set_inorder)
    then have r4: "set_tree T' = insert arc (set_tree T)"
      using zip_set_plug [of arc Leaf Leaf fs1] zs by simp
    have "sorted_wrt (\<lambda>a b. \<not> ArcLess g b a) (inorder (plug Leaf fs1))" using sT pl by simp
    from sorted_insert_ctx [OF tot ok1 [unfolded t_def] this]
    have r5: "sorted_wrt (\<lambda>a b. \<not> ArcLess g b a) (inorder T')" by (simp add: io)
    have r6: "\<forall>n. n \<noteq> s \<longrightarrow> d_head st' n = d_head st n" using h' h1 f0(3) by simp
    have "same_on (- insert arc (set_tree T)) st0 st1" using s1 by simp
    then have "same_on (- insert arc (set_tree T)) st st1" by (rule same_on_trans [OF s0'])
    moreover have "same_on (- insert arc (set_tree T)) st1 st'" using s2 zs by simp
    ultimately have r7: "same_on (- insert arc (set_tree T)) st st'" by (rule same_on_trans)
    show ?thesis using r1 r2 r3 r4 r5 r6 r7 by blast
  qed
qed

lemma map_upd_notin: "s \<notin> set ns \<Longrightarrow> map (f(s := v)) ns = map f ns"
  by (induction ns) auto

lemma mset_concat_upd:
  "distinct ns \<Longrightarrow> s \<in> set ns \<Longrightarrow>
   mset (concat (map (f(s := a # f s)) ns)) = add_mset a (mset (concat (map f ns)))"
proof (induction ns)
  case Nil
  then show ?case by simp
next
  case (Cons n ns)
  show ?case
  proof (cases "n = s")
    case True
    then have "s \<notin> set ns" using Cons.prems by simp
    then show ?thesis using True by (simp only: list.map concat.simps map_upd_notin) simp
  next
    case False
    with Cons show ?thesis by simp
  qed
qed

lemma addArc_fields:
  "nodes (addArc g a s t) = nodes g" "node_less (addArc g a s t) = node_less g"
  "outArcs (addArc g a s t) = (outArcs g)(s := a # outArcs g s)"
  "arc_source (addArc g a s t) = (arc_source g)(a := s)"
  "arc_target (addArc g a s t) = (arc_target g)(a := t)"
  by (simp_all add: addArc_def)

lemma mset_arcs_addArc:
  assumes "distinct (nodes g)" "s \<in> set (nodes g)"
  shows "mset (arcs (addArc g a s t)) = add_mset a (mset (arcs g))"
  unfolding arcs_def addArc_fields by (rule mset_concat_upd [OF assms])

lemma set_arcs_addArc:
  assumes "distinct (nodes g)" "s \<in> set (nodes g)"
  shows "set (arcs (addArc g a s t)) = insert a (set (arcs g))"
proof -
  have "mset (arcs (addArc g a s t)) = mset (a # arcs g)"
    using mset_arcs_addArc [OF assms] by simp
  then have "set (arcs (addArc g a s t)) = set (a # arcs g)" by (rule mset_eq_setD)
  then show ?thesis by simp
qed

lemma wf_graph_addArc:
  assumes wf: "wf_graph g" and a: "a \<noteq> INVALID" "a \<notin> set (arcs g)" and s: "s \<in> set (nodes g)"
  shows "wf_graph (addArc g a s t)"
proof -
  have dn: "distinct (nodes g)" using wf by (simp add: wf_graph_def)
  have "mset (arcs (addArc g a s t)) = mset (a # arcs g)"
    using mset_arcs_addArc [OF dn s] by simp
  then have "distinct (arcs (addArc g a s t)) = distinct (a # arcs g)"
    by (rule mset_eq_imp_distinct_iff)
  then have 1: "distinct (arcs (addArc g a s t))" using wf a by (simp add: wf_graph_def)
  have 2: "INVALID \<notin> set (arcs (addArc g a s t))"
    using wf a by (simp add: set_arcs_addArc [OF dn s] wf_graph_def)
  have 3: "arc_source (addArc g a s t) x = n"
    if "n \<in> set (nodes g)" "x \<in> set (outArcs (addArc g a s t) n)" for n x
  proof (cases "x = a")
    case True
    have "a \<notin> set (outArcs g n)" using a(2) that(1) by (auto simp: arcs_def)
    then have "n = s" using that(2) True by (auto simp: addArc_fields split: if_splits)
    then show ?thesis using True by (simp add: addArc_fields)
  next
    case False
    then have "x \<in> set (outArcs g n)" using that(2) by (auto simp: addArc_fields split: if_splits)
    then have "arc_source g x = n" using wf that(1) by (simp add: wf_graph_def)
    then show ?thesis using False by (simp add: addArc_fields)
  qed
  show ?thesis unfolding wf_graph_def using dn 1 2 3 by (simp add: addArc_fields(1))
qed

lemma search_tree_addArc:
  "a \<notin> set_tree T \<Longrightarrow> search_tree (addArc g a s t) T = search_tree g T"
  by (induction T) (auto simp: addArc_fields)

lemma sorted_addArc:
  assumes "a \<notin> set xs"
  shows "sorted_wrt (\<lambda>x y. \<not> ArcLess (addArc g a s t) y x) xs = sorted_wrt (\<lambda>x y. \<not> ArcLess g y x) xs"
  using assms by (induction xs) (auto simp: ArcLess_def addArc_fields)

lemma add_preserves:
  assumes inv: "dyn_inv g st" and wf: "wf_graph g" and tot: "strict_weak (node_less g)"
    and a: "a \<noteq> INVALID" "a \<notin> set (arcs g)" and s: "s \<in> set (nodes g)"
  shows "\<exists>st'. add (addArc g a s t) st a = Some (Inr st') \<and> dyn_inv (addArc g a s t) st'"
proof -
  define g' where "g' = addArc g a s t"
  have dn: "distinct (nodes g)" using wf by (simp add: wf_graph_def)
  have arcs': "set (arcs g') = insert a (set (arcs g))"
    unfolding g'_def by (rule set_arcs_addArc [OF dn s])
  have out: "\<And>n. n \<in> set (nodes g) \<Longrightarrow> set (outArcs g n) \<subseteq> set (arcs g)"
    by (auto simp: arcs_def)
  from inv s obtain T where T: "ptree_at st INVALID (d_head st s) T" and dT: "distinct (inorder T)"
    and sT: "search_tree g T" and eT: "set_tree T = set (outArcs g s)"
    unfolding dyn_inv_def by blast
  have nT: "a \<notin> set_tree T" using eT out [OF s] a(2) by auto
  have va: "valid_arc g' a" using a(1) arcs' by (simp add: valid_arc_def)
  have src: "source g' a = Inr s" using va by (simp add: source_def g'_def addArc_fields)
  have tgt: "target g' a = Inr (arc_target g' a)" using va by (simp add: target_def)
  have val: "valid_arc g' x" if "x \<in> set_tree T" for x
  proof -
    have "x \<in> set (arcs g)" using that eT out [OF s] by auto
    moreover have "x \<noteq> INVALID" using that ptree_at_not_INVALID [OF T] by auto
    ultimately show ?thesis using arcs' by (simp add: valid_arc_def)
  qed
  have tot': "strict_weak (node_less g')" using tot by (simp add: g'_def addArc_fields)
  have "sorted_wrt (\<lambda>a b. \<not> ArcLess g b a) (inorder T)" by (rule sorted_search_tree [OF tot sT])
  then have so: "sorted_wrt (\<lambda>a b. \<not> ArcLess g' b a) (inorder T)"
    unfolding g'_def using nT by (simp add: sorted_addArc)
  from insert_arc_tree [OF T dT nT a(1) src tgt val tot' so]
  obtain st' T' where r: "insert_arc g' st a = Some (Inr st')"
    and T': "ptree_at st' INVALID (d_head st' s) T'" and dT': "distinct (inorder T')"
    and eT': "set_tree T' = insert a (set_tree T)"
    and sT': "sorted_wrt (\<lambda>a b. \<not> ArcLess g' b a) (inorder T')"
    and h: "\<forall>n. n \<noteq> s \<longrightarrow> d_head st' n = d_head st n"
    and fr: "same_on (- insert a (set_tree T)) st st'" by blast
  have "\<exists>U. ptree_at st' INVALID (d_head st' n) U \<and> distinct (inorder U) \<and>
          search_tree g' U \<and> set_tree U = set (outArcs g' n)"
    if n: "n \<in> set (nodes g)" for n
  proof (cases "n = s")
    case True
    have "search_tree g' T'" by (rule search_tree_sorted [OF sT'])
    moreover have "set_tree T' = set (outArcs g' n)"
      using eT' eT True by (simp add: g'_def addArc_fields)
    ultimately show ?thesis using T' dT' True by blast
  next
    case False
    from inv n obtain U where U: "ptree_at st INVALID (d_head st n) U" and dU: "distinct (inorder U)"
      and sU: "search_tree g U" and eU: "set_tree U = set (outArcs g n)"
      unfolding dyn_inv_def by blast
    have nU: "a \<notin> set_tree U" using eU out [OF n] a(2) by auto
    have "set (outArcs g n) \<inter> set (outArcs g s) = {}"
      by (rule wf_graph_out(3) [OF wf n s]) (use False in simp)
    then have "set_tree U \<subseteq> - insert a (set_tree T)" using eU eT nU by auto
    then have "same_on (set_tree U) st st'" by (rule same_on_subset [OF fr])
    then have "ptree_at st' INVALID (d_head st n) U" by (rule ptree_at_same_on [OF U])
    then have 1: "ptree_at st' INVALID (d_head st' n) U" using h False by simp
    have 2: "search_tree g' U" using sU nU by (simp add: g'_def search_tree_addArc)
    have 3: "set_tree U = set (outArcs g' n)" using eU False by (simp add: g'_def addArc_fields)
    show ?thesis using 1 dU 2 3 by blast
  qed
  then have "dyn_inv g' st'" by (simp add: dyn_inv_def g'_def addArc_fields(1))
  then show ?thesis using r by (simp add: add_def g'_def)
qed

lemma graph_after_fields:
  "fresh_adds g es \<Longrightarrow> nodes (graph_after g es) = nodes g \<and> node_less (graph_after g es) = node_less g"
proof (induction es arbitrary: g)
  case Nil
  then show ?case by simp
next
  case (Cons ev es)
  then show ?case by (cases ev) (simp_all add: addArc_fields)
qed

lemma wf_graph_after: "wf_graph g \<Longrightarrow> fresh_adds g es \<Longrightarrow> wf_graph (graph_after g es)"
proof (induction es arbitrary: g)
  case Nil
  then show ?case by simp
next
  case (Cons ev es)
  then show ?case by (cases ev) (simp_all add: wf_graph_addArc)
qed

lemma run_adds:
  "dyn_inv g st \<Longrightarrow> wf_graph g \<Longrightarrow> strict_weak (node_less g) \<Longrightarrow> fresh_adds g es \<Longrightarrow>
   \<exists>st'. run (g, st) es = Some (Inr (graph_after g es, st')) \<and> dyn_inv (graph_after g es) st'"
proof (induction es arbitrary: g st)
  case Nil
  then show ?case by simp
next
  case (Cons ev es)
  show ?case
  proof (cases ev)
    case (AddArc a s t)
    with Cons.prems(4) have a: "a \<noteq> INVALID" "a \<notin> set (arcs g)" and s: "s \<in> set (nodes g)"
      and fr: "fresh_adds (addArc g a s t) es" by simp_all
    from add_preserves [OF Cons.prems(1,2,3) a s]
    obtain st1 where 1: "add (addArc g a s t) st a = Some (Inr st1)"
      and 2: "dyn_inv (addArc g a s t) st1" by blast
    have 3: "wf_graph (addArc g a s t)" by (rule wf_graph_addArc [OF Cons.prems(2) a s])
    have 4: "strict_weak (node_less (addArc g a s t))"
      using Cons.prems(3) by (simp add: addArc_fields)
    from Cons.IH [OF 2 3 4 fr]
    obtain st' where "run (addArc g a s t, st1) es = Some (Inr (graph_after (addArc g a s t) es, st'))"
      "dyn_inv (graph_after (addArc g a s t) es) st'" by blast
    then show ?thesis using AddArc 1 by simp
  next
    case (EraseArc a)
    with Cons.prems(4) show ?thesis by simp
  qed
qed

lemma dyn_inv_except_empty: "dyn_inv_except g st {} = dyn_inv g st"
  by (simp add: dyn_inv_except_def dyn_inv_def)

lemma insert_pending:
  assumes inv: "dyn_inv_except g st P" and wf: "wf_graph g" and tot: "strict_weak (node_less g)"
    and a: "a \<in> P" "a \<in> set (arcs g)"
  shows "\<exists>st'. insert_arc g st a = Some (Inr st') \<and> dyn_inv_except g st' (P - {a})"
proof -
  have an: "a \<noteq> INVALID" using wf a(2) by (auto simp: wf_graph_def)
  obtain s where s: "s \<in> set (nodes g)" "a \<in> set (outArcs g s)" using a(2) by (auto simp: arcs_def)
  have va: "valid_arc g a" using an a(2) by (simp add: valid_arc_def)
  have "arc_source g a = s" by (rule wf_graph_out(4) [OF wf s])
  then have src: "source g a = Inr s" using va by (simp add: source_def)
  have tgt: "target g a = Inr (arc_target g a)" using va by (simp add: target_def)
  from inv s(1) obtain T where T: "ptree_at st INVALID (d_head st s) T" and dT: "distinct (inorder T)"
    and sT: "search_tree g T" and eT: "set_tree T = set (outArcs g s) - P"
    unfolding dyn_inv_except_def by blast
  have nT: "a \<notin> set_tree T" using eT a(1) by simp
  have val: "valid_arc g x" if "x \<in> set_tree T" for x
    by (rule wf_graph_out(5) [OF wf s(1)]) (use that eT in simp)
  have so: "sorted_wrt (\<lambda>a b. \<not> ArcLess g b a) (inorder T)" by (rule sorted_search_tree [OF tot sT])
  from insert_arc_tree [OF T dT nT an src tgt val tot so]
  obtain st' T' where r: "insert_arc g st a = Some (Inr st')"
    and T': "ptree_at st' INVALID (d_head st' s) T'" and dT': "distinct (inorder T')"
    and eT': "set_tree T' = insert a (set_tree T)"
    and sT': "sorted_wrt (\<lambda>a b. \<not> ArcLess g b a) (inorder T')"
    and h: "\<forall>n. n \<noteq> s \<longrightarrow> d_head st' n = d_head st n"
    and fr: "same_on (- insert a (set_tree T)) st st'" by blast
  have "\<exists>U. ptree_at st' INVALID (d_head st' n) U \<and> distinct (inorder U) \<and>
          search_tree g U \<and> set_tree U = set (outArcs g n) - (P - {a})"
    if n: "n \<in> set (nodes g)" for n
  proof (cases "n = s")
    case True
    have "search_tree g T'" by (rule search_tree_sorted [OF sT'])
    moreover have "set_tree T' = set (outArcs g n) - (P - {a})"
      using eT' eT True s(2) by auto
    ultimately show ?thesis using T' dT' True by blast
  next
    case False
    from inv n obtain U where U: "ptree_at st INVALID (d_head st n) U" and dU: "distinct (inorder U)"
      and sU: "search_tree g U" and eU: "set_tree U = set (outArcs g n) - P"
      unfolding dyn_inv_except_def by blast
    have disj: "set (outArcs g n) \<inter> set (outArcs g s) = {}"
      by (rule wf_graph_out(3) [OF wf n s(1)]) (use False in simp)
    then have na: "a \<notin> set (outArcs g n)" using s(2) by auto
    have "set_tree U \<subseteq> - insert a (set_tree T)" using eU eT na disj by auto
    then have "same_on (set_tree U) st st'" by (rule same_on_subset [OF fr])
    then have "ptree_at st' INVALID (d_head st n) U" by (rule ptree_at_same_on [OF U])
    then have 1: "ptree_at st' INVALID (d_head st' n) U" using h False by simp
    have 3: "set_tree U = set (outArcs g n) - (P - {a})" using eU na by auto
    show ?thesis using 1 dU sU 3 by blast
  qed
  then have "dyn_inv_except g st' (P - {a})" by (simp add: dyn_inv_except_def)
  then show ?thesis using r by blast
qed

lemma add_batch_inv:
  "dyn_inv_except g st (set as) \<Longrightarrow> wf_graph g \<Longrightarrow> strict_weak (node_less g) \<Longrightarrow>
   distinct as \<Longrightarrow> set as \<subseteq> set (arcs g) \<Longrightarrow>
   \<exists>st'. add_batch g st as = Some (Inr st') \<and> dyn_inv g st'"
proof (induction as arbitrary: st)
  case Nil
  then show ?case by (simp add: dyn_inv_except_empty)
next
  case (Cons a as)
  have a: "a \<in> set (a # as)" "a \<in> set (arcs g)" using Cons.prems(5) by simp_all
  from insert_pending [OF Cons.prems(1,2,3) a]
  obtain st1 where 1: "insert_arc g st a = Some (Inr st1)"
    and 2: "dyn_inv_except g st1 (set (a # as) - {a})" by blast
  have "set (a # as) - {a} = set as" using Cons.prems(4) by auto
  with 2 have 3: "dyn_inv_except g st1 (set as)" by simp
  have "\<exists>st'. add_batch g st1 as = Some (Inr st') \<and> dyn_inv g st'"
    by (rule Cons.IH [OF 3 Cons.prems(2,3)]) (use Cons.prems(4,5) in simp_all)
  then show ?case using 1 by simp
qed

lemma pending_addArc:
  assumes "dyn_inv_except g st P" "a \<notin> set (arcs g)"
  shows "dyn_inv_except (addArc g a s t) st (insert a P)"
  unfolding dyn_inv_except_def
proof
  fix n assume "n \<in> set (nodes (addArc g a s t))"
  then have n: "n \<in> set (nodes g)" by (simp add: addArc_fields)
  from assms(1) n obtain T where T: "ptree_at st INVALID (d_head st n) T" "distinct (inorder T)"
    and sT: "search_tree g T" and eT: "set_tree T = set (outArcs g n) - P"
    unfolding dyn_inv_except_def by blast
  have na: "a \<notin> set (outArcs g n)" using assms(2) n by (auto simp: arcs_def)
  then have "a \<notin> set_tree T" using eT by simp
  then have 1: "search_tree (addArc g a s t) T" using sT by (simp add: search_tree_addArc)
  have 2: "set_tree T = set (outArcs (addArc g a s t) n) - insert a P"
    using eT na by (auto simp: addArc_fields)
  show "\<exists>T. ptree_at st INVALID (d_head st n) T \<and> distinct (inorder T) \<and>
      search_tree (addArc g a s t) T \<and> set_tree T = set (outArcs (addArc g a s t) n) - insert a P"
    using T 1 2 by blast
qed

lemma pending_after:
  "dyn_inv_except g st P \<Longrightarrow> wf_graph g \<Longrightarrow> fresh_adds g es \<Longrightarrow>
   dyn_inv_except (graph_after g es) st (P \<union> set (added es)) \<and>
   set (arcs (graph_after g es)) = set (arcs g) \<union> set (added es) \<and>
   distinct (added es) \<and> set (added es) \<inter> set (arcs g) = {}"
proof (induction es arbitrary: g P)
  case Nil
  then show ?case by simp
next
  case (Cons ev es)
  show ?case
  proof (cases ev)
    case (AddArc a s t)
    with Cons.prems(3) have a: "a \<noteq> INVALID" "a \<notin> set (arcs g)" and s: "s \<in> set (nodes g)"
      and fr: "fresh_adds (addArc g a s t) es" by simp_all
    have dn: "distinct (nodes g)" using Cons.prems(2) by (simp add: wf_graph_def)
    have ar: "set (arcs (addArc g a s t)) = insert a (set (arcs g))"
      by (rule set_arcs_addArc [OF dn s])
    have 1: "dyn_inv_except (addArc g a s t) st (insert a P)"
      by (rule pending_addArc [OF Cons.prems(1) a(2)])
    have 2: "wf_graph (addArc g a s t)" by (rule wf_graph_addArc [OF Cons.prems(2) a s])
    from Cons.IH [OF 1 2 fr]
    have IH: "dyn_inv_except (graph_after (addArc g a s t) es) st (insert a P \<union> set (added es))"
      "set (arcs (graph_after (addArc g a s t) es)) = set (arcs (addArc g a s t)) \<union> set (added es)"
      "distinct (added es)" "set (added es) \<inter> set (arcs (addArc g a s t)) = {}" by simp_all
    have "insert a P \<union> set (added es) = P \<union> set (added (ev # es))" using AddArc by simp
    with IH(1) have r1: "dyn_inv_except (graph_after g (ev # es)) st (P \<union> set (added (ev # es)))"
      using AddArc by simp
    have r2: "set (arcs (graph_after g (ev # es))) = set (arcs g) \<union> set (added (ev # es))"
      using IH(2) ar AddArc by simp
    have r3: "distinct (added (ev # es))" using IH(3,4) ar AddArc by auto
    have r4: "set (added (ev # es)) \<inter> set (arcs g) = {}" using IH(4) ar a(2) AddArc by auto
    show ?thesis using r1 r2 r3 r4 by simp
  next
    case (EraseArc a)
    with Cons.prems(3) show ?thesis by simp
  qed
qed

lemma add_batch_adds:
  assumes "dyn_inv g st" "wf_graph g" "strict_weak (node_less g)" "fresh_adds g es"
  shows "\<exists>st'. add_batch (graph_after g es) st (added es) = Some (Inr st') \<and>
           dyn_inv (graph_after g es) st'"
proof -
  have 0: "dyn_inv_except g st {}" using assms(1) by (simp add: dyn_inv_except_empty)
  from pending_after [OF 0 assms(2,4)]
  have 1: "dyn_inv_except (graph_after g es) st (set (added es))"
    and 2: "set (added es) \<subseteq> set (arcs (graph_after g es))" and 3: "distinct (added es)" by auto
  have 4: "wf_graph (graph_after g es)" by (rule wf_graph_after [OF assms(2,4)])
  have 5: "strict_weak (node_less (graph_after g es))"
    using assms(3) graph_after_fields [OF assms(4)] by simp
  show ?thesis by (rule add_batch_inv [OF 1 4 5 3 2])
qed

lemma strict_weak_less: "strict_weak ((<) :: nat \<Rightarrow> nat \<Rightarrow> bool)"
  unfolding strict_weak_def by (intro conjI allI impI) simp_all

lemma dyn_refresh_inv:
  assumes "wf_graph g" "sorts_with g srt" "fits_int g"
  shows "dyn_inv g (dyn_refresh srt g st)"
  unfolding dyn_inv_def
proof
  fix n assume n: "n \<in> set (nodes g)"
  have p: "permutes srt" using assms(2) by (simp add: sorts_with_def)
  let ?T = "node_tree (srt (outArcs g n))"
  have "ptree_at (dyn_refresh srt g st) INVALID (d_head (dyn_refresh srt g st) n) ?T"
    by (rule dyn_refresh_tree [OF assms(1) p assms(3) n])
  moreover have "distinct (inorder ?T)"
    using wf_graph_out(1) [OF assms(1) n] p by (simp add: inorder_node_tree permutes_distinct)
  moreover have "search_tree g ?T" using assms(2) by (rule node_tree_search_tree)
  moreover have "set_tree ?T = set (outArcs g n)" using p by (simp add: set_node_tree permutes_set)
  ultimately show "\<exists>T. ptree_at (dyn_refresh srt g st) INVALID (d_head (dyn_refresh srt g st) n) T \<and>
       distinct (inorder T) \<and> search_tree g T \<and> set_tree T = set (outArcs g n)" by blast
qed

subsection \<open>Search trees after construction, rebuild and insertion\<close>

lemma fits_int_iff: "fits_int g \<longleftrightarrow> (\<forall>n \<in> set (nodes g). length (outArcs g n) \<le> 2 ^ 30)"
  by (auto simp: fits_int_def int_max_def)

lemma fits_int_fan: "fits_int (fan 3)"
  by (simp add: fits_int_def fan_def int_max_def)

lemma fits_int_halves: "fits_int halves"
  by (simp add: fits_int_def halves_def int_max_def)

lemma wf_fan: "wf_graph (fan 3)"
  by (simp add: wf_graph_def fan_def arcs_def upt_rec)

lemma wf_halves: "wf_graph halves"
  by (simp add: wf_graph_def halves_def arcs_def upt_rec)

lemma permutes_sort_by_half: "permutes sort_by_half"
  by (simp add: permutes_def sort_by_half_def)


text \<open>
  C9.  The claim: with a comparison of node identifiers that is not a total order,
  construction and rebuild fail with a configuration error.  The code has no such check
  and no such error.  As amended: for every comparison, total or not, for which
  \<^verbatim>\<open>std::sort\<close> returns a permutation of the collected arcs, and every graph in which no
  node has more than \<open>2 ^ 30\<close> outgoing arcs (so that the \<^verbatim>\<open>int\<close> sum in \<^verbatim>\<open>refreshRec\<close>
  does not overflow), construction and rebuild of the static and of the dynamic index
  complete, and the tree of every node holds exactly the outgoing arcs of the node.
\<close>

theorem build_ignores_order:
  assumes "wf_graph g" "permutes srt" "fits_int g" "n \<in> set (nodes g)"
  shows "(\<exists>T. tree_at (s_left (static_refresh srt g st)) (s_right (static_refresh srt g st))
             (s_head (static_refresh srt g st) n) T \<and> set_tree T = set (outArcs g n)) \<and>
         (\<exists>T. ptree_at (DynArcLookUp srt g dst) INVALID (d_head (DynArcLookUp srt g dst) n) T \<and>
             set_tree T = set (outArcs g n)) \<and>
         (\<exists>T. ptree_at (build srt g dst) INVALID (d_head (build srt g dst) n) T \<and>
             set_tree T = set (outArcs g n))"
proof -
  have s: "set_tree (node_tree (srt (outArcs g n))) = set (outArcs g n)"
    using assms(2) by (simp add: set_node_tree permutes_set)
  show ?thesis
    unfolding DynArcLookUp_def build_def
    using static_refresh_tree [OF assms, of st] dyn_refresh_tree [OF assms] s by blast
qed


theorem build_ignores_order_witness:
  "wf_graph halves \<and> permutes sort_by_half \<and> fits_int halves \<and> 0 \<in> set (nodes halves) \<and>
   (\<exists>T. tree_at (s_left (static_refresh sort_by_half halves static_init))
           (s_right (static_refresh sort_by_half halves static_init))
           (s_head (static_refresh sort_by_half halves static_init) 0) T \<and>
         set_tree T = set (outArcs halves 0)) \<and>
   (\<exists>T. ptree_at (DynArcLookUp sort_by_half halves dyn_init) INVALID
           (d_head (DynArcLookUp sort_by_half halves dyn_init) 0) T \<and>
         set_tree T = set (outArcs halves 0)) \<and>
   (\<exists>T. ptree_at (build sort_by_half halves dyn_init) INVALID
           (d_head (build sort_by_half halves dyn_init) 0) T \<and>
         set_tree T = set (outArcs halves 0))"
proof -
  have n: "0 \<in> set (nodes halves)" by (simp add: halves_def)
  show ?thesis
    using wf_halves permutes_sort_by_half fits_int_halves n
      build_ignores_order [OF wf_halves permutes_sort_by_half fits_int_halves n,
        of static_init dyn_init]
    by blast
qed


text \<open>
  The counterexample to C9 as stated: under the comparison by halves the nodes \<open>2\<close> and
  \<open>3\<close> are different and neither is smaller.  The rebuild completes with the tree of the
  three arcs of node \<open>0\<close>; afterwards the look-up of \<open>(0, 2)\<close> answers not-found although
  \<open>Arc 0\<close> leads from \<open>0\<close> to \<open>2\<close>.
\<close>

theorem build_accepts_partial_order:
  "\<not> node_less halves 2 3 \<and> \<not> node_less halves 3 2 \<and>
   tree_at (s_left (static_refresh sort_by_half halves static_init))
     (s_right (static_refresh sort_by_half halves static_init))
     (s_head (static_refresh sort_by_half halves static_init) 0)
     (Node (Node Leaf (Arc 0) Leaf) (Arc 1) (Node Leaf (Arc 2) Leaf)) \<and>
   arc_source halves (Arc 0) = 0 \<and> arc_target halves (Arc 0) = 2 \<and>
   static_lookup halves (static_refresh sort_by_half halves static_init) 0 2 = Some (Inr INVALID)"
  by (simp add: static_refresh_def static_refresh_node_def static_refreshRec.simps
      static_lookup_def static_lookup_loop.simps target_def valid_arc_def arcs_def Let_def
      halves_def sort_by_half_def static_init_def upt_rec int_max_def)

text \<open>
  C4.  The claim: after construction, after every rebuild and after every \<^verbatim>\<open>add\<close> and
  \<^verbatim>\<open>erase\<close> notification, every tree is a search tree in which the arcs of a left subtree
  have a target strictly smaller than the root of the subtree.  As amended: in a graph in
  which no node has more than \<open>2 ^ 30\<close> outgoing arcs, after construction and after every
  rebuild, of the static and of the dynamic index, every node's tree is a search tree in
  which no arc of a left subtree has a greater target than the root of the subtree and no
  arc of a right subtree has a smaller one, and it holds exactly the outgoing arcs of the
  node; and when the comparison of node identifiers is a strict weak order, every state
  of the dynamic index with this property (\<open>dyn_inv\<close>) is taken to such a state again by
  every sequence of \<^verbatim>\<open>add\<close> notifications for new arcs, each of which returns, and by the
  one notification \<^verbatim>\<open>add(const std::vector<Arc>&)\<close> for all of them.
\<close>

theorem trees_are_search_trees:
  assumes "wf_graph g" "sorts_with g srt" "fits_int g" "n \<in> set (nodes g)"
  shows "(\<exists>T. tree_at (s_left (static_refresh srt g st)) (s_right (static_refresh srt g st))
             (s_head (static_refresh srt g st) n) T \<and> search_tree g T \<and>
             set_tree T = set (outArcs g n)) \<and>
         (\<exists>T. ptree_at (DynArcLookUp srt g dst) INVALID (d_head (DynArcLookUp srt g dst) n) T \<and>
             search_tree g T \<and> set_tree T = set (outArcs g n)) \<and>
         (\<exists>T. ptree_at (build srt g dst) INVALID (d_head (build srt g dst) n) T \<and>
             search_tree g T \<and> set_tree T = set (outArcs g n)) \<and>
         dyn_inv g (DynArcLookUp srt g dst) \<and> dyn_inv g (build srt g dst) \<and>
         (strict_weak (node_less g) \<and> dyn_inv g st0 \<and> fresh_adds g es \<longrightarrow>
            (\<exists>st'. run (g, st0) es = Some (Inr (graph_after g es, st')) \<and>
                dyn_inv (graph_after g es) st') \<and>
            (\<exists>st'. add_batch (graph_after g es) st0 (added es) = Some (Inr st') \<and>
                dyn_inv (graph_after g es) st'))"
proof -
  have p: "permutes srt" using assms(2) by (simp add: sorts_with_def)
  have s: "set_tree (node_tree (srt (outArcs g n))) = set (outArcs g n)"
    using p by (simp add: set_node_tree permutes_set)
  have t: "search_tree g (node_tree (srt (outArcs g n)))"
    using assms(2) by (rule node_tree_search_tree)
  have 1: "\<exists>T. tree_at (s_left (static_refresh srt g st)) (s_right (static_refresh srt g st))
             (s_head (static_refresh srt g st) n) T \<and> search_tree g T \<and>
             set_tree T = set (outArcs g n)"
    using static_refresh_tree [OF assms(1) p assms(3,4), of st] s t by blast
  have 2: "\<exists>T. ptree_at (dyn_refresh srt g d) INVALID (d_head (dyn_refresh srt g d) n) T \<and>
             search_tree g T \<and> set_tree T = set (outArcs g n)" for d
    using dyn_refresh_tree [OF assms(1) p assms(3,4), of d] s t by blast
  have 3: "dyn_inv g (dyn_refresh srt g d)" for d
    by (rule dyn_refresh_inv [OF assms(1,2,3)])
  have 4: "\<exists>st'. run (g, st0) es = Some (Inr (graph_after g es, st')) \<and>
                dyn_inv (graph_after g es) st'"
    if "strict_weak (node_less g)" "dyn_inv g st0" "fresh_adds g es"
    by (rule run_adds [OF that(2) assms(1) that(1,3)])
  have 5: "\<exists>st'. add_batch (graph_after g es) st0 (added es) = Some (Inr st') \<and>
                dyn_inv (graph_after g es) st'"
    if "strict_weak (node_less g)" "dyn_inv g st0" "fresh_adds g es"
    by (rule add_batch_adds [OF that(2) assms(1) that(1,3)])
  show ?thesis
    unfolding DynArcLookUp_def build_def using 1 2 3 4 5 by blast
qed


theorem trees_are_search_trees_witness:
  "wf_graph (fan 3) \<and> sorts_with (fan 3) (sort_by_target (fan 3)) \<and> fits_int (fan 3) \<and>
   0 \<in> set (nodes (fan 3)) \<and>
   strict_weak (node_less (fan 3)) \<and>
   dyn_inv (fan 3) (DynArcLookUp (sort_by_target (fan 3)) (fan 3) dyn_init) \<and>
   fresh_adds (fan 3) [AddArc (Arc 3) 0 2, AddArc (Arc 4) 0 1] \<and>
   (\<exists>T. tree_at (s_left (static_refresh (sort_by_target (fan 3)) (fan 3) static_init))
           (s_right (static_refresh (sort_by_target (fan 3)) (fan 3) static_init))
           (s_head (static_refresh (sort_by_target (fan 3)) (fan 3) static_init) 0) T \<and>
         search_tree (fan 3) T \<and> set_tree T = set (outArcs (fan 3) 0)) \<and>
   (\<exists>T. ptree_at (DynArcLookUp (sort_by_target (fan 3)) (fan 3) dyn_init) INVALID
           (d_head (DynArcLookUp (sort_by_target (fan 3)) (fan 3) dyn_init) 0) T \<and>
         search_tree (fan 3) T \<and> set_tree T = set (outArcs (fan 3) 0)) \<and>
   (\<exists>T. ptree_at (build (sort_by_target (fan 3)) (fan 3) dyn_init) INVALID
           (d_head (build (sort_by_target (fan 3)) (fan 3) dyn_init) 0) T \<and>
         search_tree (fan 3) T \<and> set_tree T = set (outArcs (fan 3) 0)) \<and>
   dyn_inv (fan 3) (build (sort_by_target (fan 3)) (fan 3) dyn_init) \<and>
   (\<exists>st'. run (fan 3, DynArcLookUp (sort_by_target (fan 3)) (fan 3) dyn_init)
              [AddArc (Arc 3) 0 2, AddArc (Arc 4) 0 1] =
            Some (Inr (graph_after (fan 3) [AddArc (Arc 3) 0 2, AddArc (Arc 4) 0 1], st')) \<and>
          dyn_inv (graph_after (fan 3) [AddArc (Arc 3) 0 2, AddArc (Arc 4) 0 1]) st') \<and>
   (\<exists>st'. add_batch (graph_after (fan 3) [AddArc (Arc 3) 0 2, AddArc (Arc 4) 0 1])
              (DynArcLookUp (sort_by_target (fan 3)) (fan 3) dyn_init)
              (added [AddArc (Arc 3) 0 2, AddArc (Arc 4) 0 1]) = Some (Inr st') \<and>
          dyn_inv (graph_after (fan 3) [AddArc (Arc 3) 0 2, AddArc (Arc 4) 0 1]) st')"
proof -
  have n: "0 \<in> set (nodes (fan 3))" by (simp add: fan_def)
  have s: "sorts_with (fan 3) (sort_by_target (fan 3))"
    by (rule sorts_with_sort_by_target) (simp add: fan_def)
  have o: "strict_weak (node_less (fan 3))" by (simp add: fan_def strict_weak_less)
  have f: "fresh_adds (fan 3) [AddArc (Arc 3) 0 2, AddArc (Arc 4) 0 1]"
    by (simp add: fan_def arcs_def upt_rec addArc_def)
  note t = trees_are_search_trees [OF wf_fan s fits_int_fan n, of static_init dyn_init
      "DynArcLookUp (sort_by_target (fan 3)) (fan 3) dyn_init"
      "[AddArc (Arc 3) 0 2, AddArc (Arc 4) 0 1]"]
  show ?thesis
    using wf_fan s fits_int_fan n o f t by blast
qed

text \<open>
  The counterexample to C4 as stated: with three parallel arcs the median \<open>Arc 1\<close> is the
  root and \<open>Arc 0\<close>, with the same target, is its left child.
\<close>

theorem parallel_arcs_not_strict:
  "tree_at (s_left (static_refresh (sort_by_target (parallel 3)) (parallel 3) static_init))
     (s_right (static_refresh (sort_by_target (parallel 3)) (parallel 3) static_init))
     (s_head (static_refresh (sort_by_target (parallel 3)) (parallel 3) static_init) 0)
     (Node (Node Leaf (Arc 0) Leaf) (Arc 1) (Node Leaf (Arc 2) Leaf)) \<and>
   \<not> search_tree_strict (parallel 3) (Node (Node Leaf (Arc 0) Leaf) (Arc 1) (Node Leaf (Arc 2) Leaf))"
  by (simp add: static_refresh_def static_refresh_node_def static_refreshRec.simps Let_def
      sort_by_target_def parallel_def static_init_def upt_rec int_max_def)

subsection \<open>Look-up in the static index\<close>

lemma static_lookup_loop_tree:
  assumes total: "\<And>x y. x \<noteq> y \<Longrightarrow> node_less g x y \<or> node_less g y x"
  shows "tree_at (s_left st) (s_right st) a T \<Longrightarrow> search_tree g T \<Longrightarrow>
     (\<And>x. x \<in> set_tree T \<Longrightarrow> valid_arc g x) \<Longrightarrow>
     \<exists>e. static_lookup_loop g st t a = Some (Inr e) \<and>
         (if e = INVALID then (\<forall>x \<in> set_tree T. arc_target g x \<noteq> t)
          else e \<in> set_tree T \<and> arc_target g e = t)"
proof (induction T arbitrary: a)
  case Leaf
  then show ?case by (simp add: static_lookup_loop.simps)
next
  case (Node lt x rt)
  from Node.prems(1) have a: "a = x" "x \<noteq> INVALID"
    and tl: "tree_at (s_left st) (s_right st) (s_left st x) lt"
    and tr: "tree_at (s_left st) (s_right st) (s_right st x) rt" by auto
  from Node.prems(2) have sl: "search_tree g lt" and sr: "search_tree g rt"
    and bl: "\<And>y. y \<in> set_tree lt \<Longrightarrow> \<not> node_less g (arc_target g x) (arc_target g y)"
    and br: "\<And>y. y \<in> set_tree rt \<Longrightarrow> \<not> node_less g (arc_target g y) (arc_target g x)" by auto
  have vx: "target g x = Inr (arc_target g x)" using Node.prems(3) by (simp add: target_def)
  show ?case
  proof (cases "arc_target g x = t")
    case True
    then show ?thesis using a vx by (subst static_lookup_loop.simps) simp
  next
    case ne: False
    show ?thesis
    proof (cases "node_less g t (arc_target g x)")
      case True
      have step: "static_lookup_loop g st t a = static_lookup_loop g st t (s_left st x)"
        using a vx ne True by (subst static_lookup_loop.simps) simp
      from Node.IH(1) [OF tl sl] Node.prems(3)
      obtain e where e: "static_lookup_loop g st t (s_left st x) = Some (Inr e)"
        "if e = INVALID then (\<forall>y \<in> set_tree lt. arc_target g y \<noteq> t)
          else e \<in> set_tree lt \<and> arc_target g e = t" by auto
      have "\<And>y. y \<in> set_tree rt \<Longrightarrow> arc_target g y \<noteq> t" using br True by auto
      then show ?thesis using step e ne by (auto split: if_splits)
    next
      case False
      have step: "static_lookup_loop g st t a = static_lookup_loop g st t (s_right st x)"
        using a vx ne False by (subst static_lookup_loop.simps) simp
      from Node.IH(2) [OF tr sr] Node.prems(3)
      obtain e where e: "static_lookup_loop g st t (s_right st x) = Some (Inr e)"
        "if e = INVALID then (\<forall>y \<in> set_tree rt. arc_target g y \<noteq> t)
          else e \<in> set_tree rt \<and> arc_target g e = t" by auto
      have "\<And>y. y \<in> set_tree lt \<Longrightarrow> arc_target g y \<noteq> t"
        using bl False ne total by metis
      then show ?thesis using step e ne by (auto split: if_splits)
    qed
  qed
qed

lemma static_lookup_correct:
  assumes "wf_graph g" "sorts_with g srt"
    and total: "\<And>x y. x \<noteq> y \<Longrightarrow> node_less g x y \<or> node_less g y x"
    and "s \<in> set (nodes g)" and fit: "fits_int g"
  shows "\<exists>e. static_lookup g (static_refresh srt g st) s t = Some (Inr e) \<and>
     (e \<noteq> INVALID \<longleftrightarrow> (\<exists>a \<in> set (outArcs g s). arc_target g a = t)) \<and>
     (e \<noteq> INVALID \<longrightarrow> e \<in> set (outArcs g s) \<and> arc_source g e = s \<and> arc_target g e = t)"
proof -
  let ?st = "static_refresh srt g st"
  let ?T = "node_tree (srt (outArcs g s))"
  have p: "permutes srt" using assms(2) by (simp add: sorts_with_def)
  have set: "set_tree ?T = set (outArcs g s)" using p by (simp add: set_node_tree permutes_set)
  have t: "tree_at (s_left ?st) (s_right ?st) (s_head ?st s) ?T"
    using assms(1) p fit assms(4) by (rule static_refresh_tree)
  have st: "search_tree g ?T" using assms(2) by (rule node_tree_search_tree)
  note w = wf_graph_out [OF assms(1) assms(4)]
  have v: "\<And>x. x \<in> set_tree ?T \<Longrightarrow> valid_arc g x" using w(5) set by simp
  from static_lookup_loop_tree [OF total t st v, where t = t]
  obtain e where e: "static_lookup g ?st s t = Some (Inr e)"
     "if e = INVALID then (\<forall>x \<in> set_tree ?T. arc_target g x \<noteq> t)
          else e \<in> set_tree ?T \<and> arc_target g e = t"
    unfolding static_lookup_def by blast
  show ?thesis
  proof (cases "e = INVALID")
    case True
    with e set show ?thesis by auto
  next
    case False
    with e set w(4) show ?thesis by auto
  qed
qed


section \<open>Rebuilding twice\<close>


lemma ovr_upd: "(ovr f m)(k := v) = ovr f (m(k \<mapsto> v))"
  by (auto simp: ovr_def fun_eq_iff)

lemma ovr_ovr: "ovr (ovr f m) m' = ovr f (m ++ m')"
  by (auto simp: ovr_def fun_eq_iff map_add_def split: option.splits)

lemma ovr_empty: "ovr f Map.empty = f"
  by (simp add: ovr_def)

lemma ovr_idem: "ovr (ovr f m) m = ovr f m"
  by (auto simp: ovr_def fun_eq_iff split: option.splits)

lemma ovr_single: "ovr f [k \<mapsto> v] = f(k := v)"
  by (auto simp: ovr_def fun_eq_iff)

lemma static_refreshRec_writes:
  "a \<le> b \<Longrightarrow> 2 * b \<le> int_max \<Longrightarrow>
   \<exists>h L R. \<forall>st :: 'z static_state_scheme. static_refreshRec v a b st =
      (h, st\<lparr>s_left := ovr (s_left st) L, s_right := ovr (s_right st) R\<rparr>)"
proof (induction "b - a" arbitrary: a b rule: less_induct)
  case less
  let ?m = "(a + b) div 2"
  let ?me = "v ! ?m"
  have fit: "\<not> int_max < a + b" using less.prems by simp
  have "\<exists>l L R. \<forall>st :: 'z static_state_scheme.
      (if a < ?m then static_refreshRec v a (?m - 1) st else (INVALID, st)) =
      (l, st\<lparr>s_left := ovr (s_left st) L, s_right := ovr (s_right st) R\<rparr>)"
  proof (cases "a < ?m")
    case True
    then have d: "?m - 1 - a < b - a" "a \<le> ?m - 1" "2 * (?m - 1) \<le> int_max"
      using less.prems by auto
    from less.hyps [OF d] True show ?thesis by simp
  next
    case False
    have "\<forall>st :: 'z static_state_scheme. (INVALID, st) =
       (INVALID, st\<lparr>s_left := ovr (s_left st) Map.empty, s_right := ovr (s_right st) Map.empty\<rparr>)"
      by (simp add: ovr_empty)
    with False show ?thesis by auto
  qed
  then obtain l L1 R1 where 1: "\<And>st :: 'z static_state_scheme.
      (if a < ?m then static_refreshRec v a (?m - 1) st else (INVALID, st)) =
      (l, st\<lparr>s_left := ovr (s_left st) L1, s_right := ovr (s_right st) R1\<rparr>)" by blast
  have "\<exists>r L R. \<forall>st :: 'z static_state_scheme.
      (if ?m < b then static_refreshRec v (?m + 1) b st else (INVALID, st)) =
      (r, st\<lparr>s_left := ovr (s_left st) L, s_right := ovr (s_right st) R\<rparr>)"
  proof (cases "?m < b")
    case True
    then have d: "b - (?m + 1) < b - a" "?m + 1 \<le> b" "2 * b \<le> int_max"
      using less.prems by auto
    from less.hyps [OF d] True show ?thesis by simp
  next
    case False
    have "\<forall>st :: 'z static_state_scheme. (INVALID, st) =
       (INVALID, st\<lparr>s_left := ovr (s_left st) Map.empty, s_right := ovr (s_right st) Map.empty\<rparr>)"
      by (simp add: ovr_empty)
    with False show ?thesis by auto
  qed
  then obtain r L2 R2 where 2: "\<And>st :: 'z static_state_scheme.
      (if ?m < b then static_refreshRec v (?m + 1) b st else (INVALID, st)) =
      (r, st\<lparr>s_left := ovr (s_left st) L2, s_right := ovr (s_right st) R2\<rparr>)" by blast
  have "\<forall>st :: 'z static_state_scheme. static_refreshRec v a b st =
      (?me, st\<lparr>s_left := ovr (s_left st) ((L1(?me \<mapsto> l)) ++ L2),
               s_right := ovr (s_right st) ((R1 ++ R2)(?me \<mapsto> r))\<rparr>)"
  proof
    fix st :: "'z static_state_scheme"
    show "static_refreshRec v a b st =
      (?me, st\<lparr>s_left := ovr (s_left st) ((L1(?me \<mapsto> l)) ++ L2),
               s_right := ovr (s_right st) ((R1 ++ R2)(?me \<mapsto> r))\<rparr>)"
      apply (subst static_refreshRec.simps)
      apply (simp only: fit if_False Let_def 1 prod.case 2)
      apply (simp add: ovr_upd ovr_ovr)
      done
  qed
  then show ?case by blast
qed

lemma static_refresh_node_writes:
  assumes "2 * (length (srt (outArcs g n)) - 1) \<le> int_max"
  shows "\<exists>H L R. \<forall>st :: 'z static_state_scheme. static_refresh_node srt g st n =
      st\<lparr>s_head := ovr (s_head st) H, s_left := ovr (s_left st) L, s_right := ovr (s_right st) R\<rparr>"
proof (cases "srt (outArcs g n) = []")
  case True
  have "\<forall>st :: 'z static_state_scheme. static_refresh_node srt g st n =
      st\<lparr>s_head := ovr (s_head st) [n \<mapsto> INVALID], s_left := ovr (s_left st) Map.empty,
         s_right := ovr (s_right st) Map.empty\<rparr>"
    using True by (simp add: static_refresh_node_def ovr_empty ovr_single)
  then show ?thesis by blast
next
  case False
  obtain h L R where 1: "\<And>st :: 'z static_state_scheme.
     static_refreshRec (srt (outArcs g n)) 0 (length (srt (outArcs g n)) - 1) st =
      (h, st\<lparr>s_left := ovr (s_left st) L, s_right := ovr (s_right st) R\<rparr>)"
    using static_refreshRec_writes [OF le0 assms] by blast
  have "\<forall>st :: 'z static_state_scheme. static_refresh_node srt g st n =
      st\<lparr>s_head := ovr (s_head st) [n \<mapsto> h], s_left := ovr (s_left st) L,
         s_right := ovr (s_right st) R\<rparr>"
    apply (simp only: static_refresh_node_def Let_def False if_True if_False not_False_eq_True 1 prod.case)
    apply (simp add: ovr_single)
    done
  then show ?thesis by blast
qed

lemma static_refresh_nodes_writes:
  "\<forall>n \<in> set ns. 2 * (length (srt (outArcs g n)) - 1) \<le> int_max \<Longrightarrow>
   \<exists>H L R. \<forall>st :: 'z static_state_scheme. foldl (static_refresh_node srt g) st ns =
      st\<lparr>s_head := ovr (s_head st) H, s_left := ovr (s_left st) L, s_right := ovr (s_right st) R\<rparr>"
proof (induction ns rule: rev_induct)
  case Nil
  have "\<forall>st :: 'z static_state_scheme. foldl (static_refresh_node srt g) st [] =
      st\<lparr>s_head := ovr (s_head st) Map.empty, s_left := ovr (s_left st) Map.empty,
         s_right := ovr (s_right st) Map.empty\<rparr>"
    by (simp add: ovr_empty)
  then show ?case by blast
next
  case (snoc n ns)
  have b: "\<forall>k \<in> set ns. 2 * (length (srt (outArcs g k)) - 1) \<le> int_max"
    "2 * (length (srt (outArcs g n)) - 1) \<le> int_max" using snoc.prems by simp_all
  from snoc.IH [OF b(1)]
  obtain H L R where 1: "\<And>st :: 'z static_state_scheme. foldl (static_refresh_node srt g) st ns =
      st\<lparr>s_head := ovr (s_head st) H, s_left := ovr (s_left st) L, s_right := ovr (s_right st) R\<rparr>"
    by blast
  obtain H' L' R' where 2: "\<And>st :: 'z static_state_scheme. static_refresh_node srt g st n =
      st\<lparr>s_head := ovr (s_head st) H', s_left := ovr (s_left st) L', s_right := ovr (s_right st) R'\<rparr>"
    using static_refresh_node_writes [of srt g n, OF b(2)] by blast
  have "\<forall>st :: 'z static_state_scheme. foldl (static_refresh_node srt g) st (ns @ [n]) =
      st\<lparr>s_head := ovr (s_head st) (H ++ H'), s_left := ovr (s_left st) (L ++ L'),
         s_right := ovr (s_right st) (R ++ R')\<rparr>"
    by (simp add: 1 2 ovr_ovr)
  then show ?case by blast
qed

lemma fits_int_srt:
  "fits_int g \<Longrightarrow> permutes srt \<Longrightarrow>
   \<forall>n \<in> set (nodes g). 2 * (length (srt (outArcs g n)) - 1) \<le> int_max"
  by (simp add: fits_int_def permutes_length)

lemma static_refresh_writes:
  assumes "fits_int g" "permutes srt"
  shows "\<exists>H L R. \<forall>st :: 'z static_state_scheme. static_refresh srt g st =
      st\<lparr>s_head := ovr (s_head st) H, s_left := ovr (s_left st) L, s_right := ovr (s_right st) R\<rparr>"
  unfolding static_refresh_def
  by (rule static_refresh_nodes_writes [OF fits_int_srt [OF assms]])

lemma static_refresh_idem:
  assumes "fits_int g" "permutes srt"
  shows "static_refresh srt g (static_refresh srt g (st :: 'z static_state_scheme)) =
     static_refresh srt g st"
proof -
  obtain H L R where 1: "\<And>st :: 'z static_state_scheme. static_refresh srt g st =
      st\<lparr>s_head := ovr (s_head st) H, s_left := ovr (s_left st) L, s_right := ovr (s_right st) R\<rparr>"
    using static_refresh_writes [OF assms] by blast
  show ?thesis by (simp add: 1 ovr_idem)
qed

lemma dyn_refreshRec_writes:
  "a \<le> b \<Longrightarrow> 2 * b \<le> int_max \<Longrightarrow>
   \<exists>h P L R. \<forall>st. dyn_refreshRec v a b st =
      (h, st\<lparr>d_parent := ovr (d_parent st) P, d_left := ovr (d_left st) L,
             d_right := ovr (d_right st) R\<rparr>)"
proof (induction "b - a" arbitrary: a b rule: less_induct)
  case less
  let ?m = "(a + b) div 2"
  let ?me = "v ! ?m"
  have fit: "\<not> int_max < a + b" using less.prems by simp
  have "\<exists>P L R. \<forall>st.
      (if a < ?m then
         (let (l, st) = dyn_refreshRec v a (?m - 1) st;
              st = left_set st ?me l
          in parent_set st l ?me)
       else left_set st ?me INVALID) =
      st\<lparr>d_parent := ovr (d_parent st) P, d_left := ovr (d_left st) L,
         d_right := ovr (d_right st) R\<rparr>"
  proof (cases "a < ?m")
    case True
    then have d: "?m - 1 - a < b - a" "a \<le> ?m - 1" "2 * (?m - 1) \<le> int_max"
      using less.prems by auto
    from less.hyps [OF d] obtain l P L R where 1: "\<And>st. dyn_refreshRec v a (?m - 1) st =
      (l, st\<lparr>d_parent := ovr (d_parent st) P, d_left := ovr (d_left st) L,
             d_right := ovr (d_right st) R\<rparr>)" by blast
    have "\<forall>st. (let (l, st) = dyn_refreshRec v a (?m - 1) st;
              st = left_set st ?me l
          in parent_set st l ?me) =
      st\<lparr>d_parent := ovr (d_parent st) (P(l \<mapsto> ?me)), d_left := ovr (d_left st) (L(?me \<mapsto> l)),
         d_right := ovr (d_right st) R\<rparr>"
      apply (simp only: Let_def 1 prod.case)
      apply (simp add: left_set_def parent_set_def ovr_upd)
      done
    with True show ?thesis by (simp only: if_True) blast
  next
    case False
    have "\<forall>st. left_set st ?me INVALID =
      st\<lparr>d_parent := ovr (d_parent st) Map.empty, d_left := ovr (d_left st) [?me \<mapsto> INVALID],
         d_right := ovr (d_right st) Map.empty\<rparr>"
      by (simp add: left_set_def ovr_empty ovr_single)
    with False show ?thesis by (simp only: if_False) blast
  qed
  then obtain P1 L1 R1 where 1: "\<And>st.
      (if a < ?m then
         (let (l, st) = dyn_refreshRec v a (?m - 1) st;
              st = left_set st ?me l
          in parent_set st l ?me)
       else left_set st ?me INVALID) =
      st\<lparr>d_parent := ovr (d_parent st) P1, d_left := ovr (d_left st) L1,
         d_right := ovr (d_right st) R1\<rparr>" by blast
  have "\<exists>P L R. \<forall>st.
      (if ?m < b then
         (let (r, st) = dyn_refreshRec v (?m + 1) b st;
              st = right_set st ?me r
          in parent_set st r ?me)
       else right_set st ?me INVALID) =
      st\<lparr>d_parent := ovr (d_parent st) P, d_left := ovr (d_left st) L,
         d_right := ovr (d_right st) R\<rparr>"
  proof (cases "?m < b")
    case True
    then have d: "b - (?m + 1) < b - a" "?m + 1 \<le> b" "2 * b \<le> int_max"
      using less.prems by auto
    from less.hyps [OF d] obtain r P L R where 1: "\<And>st. dyn_refreshRec v (?m + 1) b st =
      (r, st\<lparr>d_parent := ovr (d_parent st) P, d_left := ovr (d_left st) L,
             d_right := ovr (d_right st) R\<rparr>)" by blast
    have "\<forall>st. (let (r, st) = dyn_refreshRec v (?m + 1) b st;
              st = right_set st ?me r
          in parent_set st r ?me) =
      st\<lparr>d_parent := ovr (d_parent st) (P(r \<mapsto> ?me)), d_left := ovr (d_left st) L,
         d_right := ovr (d_right st) (R(?me \<mapsto> r))\<rparr>"
      apply (simp only: Let_def 1 prod.case)
      apply (simp add: right_set_def parent_set_def ovr_upd)
      done
    with True show ?thesis by (simp only: if_True) blast
  next
    case False
    have "\<forall>st. right_set st ?me INVALID =
      st\<lparr>d_parent := ovr (d_parent st) Map.empty, d_left := ovr (d_left st) Map.empty,
         d_right := ovr (d_right st) [?me \<mapsto> INVALID]\<rparr>"
      by (simp add: right_set_def ovr_empty ovr_single)
    with False show ?thesis by (simp only: if_False) blast
  qed
  then obtain P2 L2 R2 where 2: "\<And>st.
      (if ?m < b then
         (let (r, st) = dyn_refreshRec v (?m + 1) b st;
              st = right_set st ?me r
          in parent_set st r ?me)
       else right_set st ?me INVALID) =
      st\<lparr>d_parent := ovr (d_parent st) P2, d_left := ovr (d_left st) L2,
         d_right := ovr (d_right st) R2\<rparr>" by blast
  have "\<forall>st. dyn_refreshRec v a b st =
      (?me, st\<lparr>d_parent := ovr (d_parent st) (P1 ++ P2), d_left := ovr (d_left st) (L1 ++ L2),
         d_right := ovr (d_right st) (R1 ++ R2)\<rparr>)"
  proof
    fix st
    show "dyn_refreshRec v a b st =
      (?me, st\<lparr>d_parent := ovr (d_parent st) (P1 ++ P2), d_left := ovr (d_left st) (L1 ++ L2),
         d_right := ovr (d_right st) (R1 ++ R2)\<rparr>)"
      apply (subst dyn_refreshRec.simps)
      apply (simp only: fit if_False Let_def 1 [unfolded Let_def] 2 [unfolded Let_def])
      apply (simp add: ovr_ovr)
      done
  qed
  then show ?case by blast
qed

lemma dyn_refresh_node_writes:
  assumes "2 * (length (srt (outArcs g n)) - 1) \<le> int_max"
  shows "\<exists>H P L R. \<forall>st. dyn_refresh_node srt g st n =
      st\<lparr>d_head := ovr (d_head st) H, d_parent := ovr (d_parent st) P,
         d_left := ovr (d_left st) L, d_right := ovr (d_right st) R\<rparr>"
proof (cases "srt (outArcs g n) = []")
  case True
  have "\<forall>st. dyn_refresh_node srt g st n =
      st\<lparr>d_head := ovr (d_head st) [n \<mapsto> INVALID], d_parent := ovr (d_parent st) Map.empty,
         d_left := ovr (d_left st) Map.empty, d_right := ovr (d_right st) Map.empty\<rparr>"
    using True by (simp add: dyn_refresh_node_def head_set_def ovr_empty ovr_single)
  then show ?thesis by blast
next
  case False
  obtain h P L R where 1: "\<And>st.
     dyn_refreshRec (srt (outArcs g n)) 0 (length (srt (outArcs g n)) - 1) st =
      (h, st\<lparr>d_parent := ovr (d_parent st) P, d_left := ovr (d_left st) L,
             d_right := ovr (d_right st) R\<rparr>)"
    using dyn_refreshRec_writes [OF le0 assms] by blast
  have "\<forall>st. dyn_refresh_node srt g st n =
      st\<lparr>d_head := ovr (d_head st) [n \<mapsto> h], d_parent := ovr (d_parent st) (P(h \<mapsto> INVALID)),
         d_left := ovr (d_left st) L, d_right := ovr (d_right st) R\<rparr>"
    apply (simp only: dyn_refresh_node_def Let_def False if_True if_False not_False_eq_True 1 prod.case)
    apply (simp add: ovr_single ovr_upd head_set_def parent_set_def)
    done
  then show ?thesis by blast
qed

lemma dyn_refresh_nodes_writes:
  "\<forall>n \<in> set ns. 2 * (length (srt (outArcs g n)) - 1) \<le> int_max \<Longrightarrow>
   \<exists>H P L R. \<forall>st. foldl (dyn_refresh_node srt g) st ns =
      st\<lparr>d_head := ovr (d_head st) H, d_parent := ovr (d_parent st) P,
         d_left := ovr (d_left st) L, d_right := ovr (d_right st) R\<rparr>"
proof (induction ns rule: rev_induct)
  case Nil
  have "\<forall>st. foldl (dyn_refresh_node srt g) st [] =
      st\<lparr>d_head := ovr (d_head st) Map.empty, d_parent := ovr (d_parent st) Map.empty,
         d_left := ovr (d_left st) Map.empty, d_right := ovr (d_right st) Map.empty\<rparr>"
    by (simp add: ovr_empty)
  then show ?case by blast
next
  case (snoc n ns)
  have b: "\<forall>k \<in> set ns. 2 * (length (srt (outArcs g k)) - 1) \<le> int_max"
    "2 * (length (srt (outArcs g n)) - 1) \<le> int_max" using snoc.prems by simp_all
  from snoc.IH [OF b(1)]
  obtain H P L R where 1: "\<And>st. foldl (dyn_refresh_node srt g) st ns =
      st\<lparr>d_head := ovr (d_head st) H, d_parent := ovr (d_parent st) P,
         d_left := ovr (d_left st) L, d_right := ovr (d_right st) R\<rparr>"
    by blast
  obtain H' P' L' R' where 2: "\<And>st. dyn_refresh_node srt g st n =
      st\<lparr>d_head := ovr (d_head st) H', d_parent := ovr (d_parent st) P',
         d_left := ovr (d_left st) L', d_right := ovr (d_right st) R'\<rparr>"
    using dyn_refresh_node_writes [of srt g n, OF b(2)] by blast
  have "\<forall>st. foldl (dyn_refresh_node srt g) st (ns @ [n]) =
      st\<lparr>d_head := ovr (d_head st) (H ++ H'), d_parent := ovr (d_parent st) (P ++ P'),
         d_left := ovr (d_left st) (L ++ L'), d_right := ovr (d_right st) (R ++ R')\<rparr>"
    by (simp add: 1 2 ovr_ovr)
  then show ?case by blast
qed

lemma dyn_refresh_writes:
  assumes "fits_int g" "permutes srt"
  shows "\<exists>H P L R. \<forall>st. dyn_refresh srt g st =
      st\<lparr>d_head := ovr (d_head st) H, d_parent := ovr (d_parent st) P,
         d_left := ovr (d_left st) L, d_right := ovr (d_right st) R\<rparr>"
  unfolding dyn_refresh_def
  by (rule dyn_refresh_nodes_writes [OF fits_int_srt [OF assms]])

lemma dyn_refresh_idem:
  assumes "fits_int g" "permutes srt"
  shows "dyn_refresh srt g (dyn_refresh srt g st) = dyn_refresh srt g st"
proof -
  obtain H P L R where 1: "\<And>st. dyn_refresh srt g st =
      st\<lparr>d_head := ovr (d_head st) H, d_parent := ovr (d_parent st) P,
         d_left := ovr (d_left st) L, d_right := ovr (d_right st) R\<rparr>"
    using dyn_refresh_writes [OF assms] by blast
  show ?thesis by (simp add: 1 ovr_idem)
qed

lemma DynArcLookUp_idem:
  assumes "fits_int g" "permutes srt"
  shows "DynArcLookUp srt g (DynArcLookUp srt g st) = DynArcLookUp srt g st"
proof -
  obtain H P L R where 1: "\<And>st. dyn_refresh srt g st =
      st\<lparr>d_head := ovr (d_head st) H, d_parent := ovr (d_parent st) P,
         d_left := ovr (d_left st) L, d_right := ovr (d_right st) R\<rparr>"
    using dyn_refresh_writes [OF assms] by blast
  show ?thesis by (simp add: DynArcLookUp_def 1 ovr_idem)
qed


subsection \<open>The parallel-arc extension\<close>

lemma chain_append: "chain g (xs @ ys) nxt = chain g ys nxt ++ chain g xs (hd (ys @ [nxt]))"
proof (induction xs)
  case Nil
  then show ?case by simp
next
  case (Cons x xs)
  have "hd (xs @ ys @ [nxt]) = hd (xs @ [hd (ys @ [nxt])])" by (cases xs) simp_all
  with Cons show ?case by (auto simp: fun_eq_iff map_add_def)
qed

lemma refreshNext_tree:
  "tree_at (s_left st) (s_right st) h T \<Longrightarrow> (\<And>x. x \<in> set_tree T \<Longrightarrow> valid_arc g x) \<Longrightarrow>
   nxt = INVALID \<or> valid_arc g nxt \<Longrightarrow>
   refreshNext g st h nxt =
     Some (Inr (hd (inorder T @ [nxt]), st\<lparr>s_next := ovr (s_next st) (chain g (inorder T) nxt)\<rparr>))"
proof (induction T arbitrary: st h nxt)
  case Leaf
  show ?case by (subst refreshNext.simps) (use Leaf in \<open>simp add: ovr_empty\<close>)
next
  case (Node l x r)
  from Node.prems(1) have h: "h = x" and x: "x \<noteq> INVALID"
    and tl: "tree_at (s_left st) (s_right st) (s_left st x) l"
    and tr: "tree_at (s_left st) (s_right st) (s_right st x) r" by auto
  have vx: "valid_arc g x" using Node.prems(2) by simp
  have vl: "\<And>y. y \<in> set_tree l \<Longrightarrow> valid_arc g y" and vr: "\<And>y. y \<in> set_tree r \<Longrightarrow> valid_arc g y"
    using Node.prems(2) by simp_all
  define n1 where "n1 = hd (inorder r @ [nxt])"
  define st1 where "st1 = st\<lparr>s_next := ovr (s_next st) (chain g (inorder r) nxt)\<rparr>"
  define st2 where "st2 = st1\<lparr>s_next := (s_next st1)(x := link g x n1)\<rparr>"
  have R: "refreshNext g st (s_right st x) nxt = Some (Inr (n1, st1))"
    unfolding n1_def st1_def by (rule Node.IH(2) [OF tr vr Node.prems(3)])
  have vn: "n1 = INVALID \<or> valid_arc g n1"
  proof (cases "inorder r")
    case Nil
    then show ?thesis using Node.prems(3) by (simp add: n1_def)
  next
    case (Cons y ys)
    then have "y \<in> set_tree r" by (metis list.set_intros(1) set_inorder)
    then show ?thesis using vr Cons by (simp add: n1_def)
  qed
  have tl2: "tree_at (s_left st2) (s_right st2) (s_left st2 x) l"
    using tl by (simp add: st2_def st1_def)
  have L: "refreshNext g st2 (s_left st2 x) x =
      Some (Inr (hd (inorder l @ [x]), st2\<lparr>s_next := ovr (s_next st2) (chain g (inorder l) x)\<rparr>))"
    by (rule Node.IH(1) [OF tl2 vl]) (use vx in simp_all)
  have step: "refreshNext g st x nxt = refreshNext g st2 (s_left st2 x) x"
  proof (cases "n1 = INVALID")
    case True
    show ?thesis
      by (subst refreshNext.simps) (use True in \<open>simp add: x R st2_def link_def st1_def\<close>)
  next
    case False
    then have "valid_arc g n1" using vn by simp
    then show ?thesis
      by (subst refreshNext.simps)
        (use False vx in \<open>simp add: x R st2_def link_def st1_def target_def\<close>)
  qed
  have 1: "hd (inorder l @ [x]) = hd (inorder (Node l x r) @ [nxt])" by (cases "inorder l") simp_all
  have "chain g (inorder l @ x # inorder r) nxt =
        (chain g (inorder r) nxt)(x \<mapsto> link g x n1) ++ chain g (inorder l) x"
    by (simp add: chain_append n1_def)
  then have 2: "st2\<lparr>s_next := ovr (s_next st2) (chain g (inorder l) x)\<rparr> =
      st\<lparr>s_next := ovr (s_next st) (chain g (inorder (Node l x r)) nxt)\<rparr>"
    by (simp add: st2_def st1_def ovr_upd ovr_ovr)
  show ?case unfolding h step L 1 2 ..
qed

lemma refreshNext_nodes_writes:
  "(\<And>n. n \<in> set ns \<Longrightarrow> tree_at (s_left st) (s_right st) (s_head st n) (T n)) \<Longrightarrow>
   (\<And>n x. n \<in> set ns \<Longrightarrow> x \<in> set_tree (T n) \<Longrightarrow> valid_arc g x) \<Longrightarrow>
   refreshNext_nodes g st ns = Some (Inr (st\<lparr>s_next := ovr (s_next st) (chains g T ns)\<rparr>))"
proof (induction ns arbitrary: st)
  case Nil
  then show ?case by (simp add: ovr_empty)
next
  case (Cons n ns)
  define st1 where "st1 = st\<lparr>s_next := ovr (s_next st) (chain g (inorder (T n)) INVALID)\<rparr>"
  have t: "tree_at (s_left st) (s_right st) (s_head st n) (T n)" using Cons.prems(1) by simp
  have v: "\<And>x. x \<in> set_tree (T n) \<Longrightarrow> valid_arc g x" using Cons.prems(2) [of n] by simp
  have 1: "refreshNext g st (s_head st n) INVALID = Some (Inr (hd (inorder (T n) @ [INVALID]), st1))"
    unfolding st1_def by (rule refreshNext_tree [OF t v]) simp_all
  have "refreshNext_nodes g st1 ns = Some (Inr (st1\<lparr>s_next := ovr (s_next st1) (chains g T ns)\<rparr>))"
  proof (rule Cons.IH)
    fix m assume "m \<in> set ns"
    then show "tree_at (s_left st1) (s_right st1) (s_head st1 m) (T m)"
      using Cons.prems(1) [of m] by (simp add: st1_def)
  next
    fix m x assume "m \<in> set ns" "x \<in> set_tree (T m)"
    then show "valid_arc g x" using Cons.prems(2) [of m x] by simp
  qed
  then show ?case by (simp add: 1) (simp add: st1_def ovr_ovr)
qed

lemma AllArcLookUp_twice:
  assumes "wf_graph g" "permutes srt" "fits_int g"
  shows "\<exists>st'. AllArcLookUp srt g st = Some (Inr st') \<and> AllArcLookUp srt g st' = Some (Inr st')"
proof -
  obtain H L R where w: "\<And>st :: all_state. static_refresh srt g st =
      st\<lparr>s_head := ovr (s_head st) H, s_left := ovr (s_left st) L, s_right := ovr (s_right st) R\<rparr>"
    using static_refresh_writes [OF assms(3,2)] by blast
  define T where "T = (\<lambda>n. node_tree (srt (outArcs g n)))"
  define M where "M = chains g T (nodes g)"
  have val: "valid_arc g x" if "n \<in> set (nodes g)" "x \<in> set_tree (T n)" for n x
    using that wf_graph_out(5) [OF assms(1) that(1)] assms(2)
    by (simp add: T_def set_node_tree permutes_set)
  have run: "refreshNext_nodes g (static_refresh srt g s) (nodes g) =
      Some (Inr ((static_refresh srt g s)\<lparr>s_next := ovr (s_next (static_refresh srt g s)) M\<rparr>))"
    for s :: all_state
    unfolding M_def
  proof (rule refreshNext_nodes_writes)
    fix n assume "n \<in> set (nodes g)"
    then show "tree_at (s_left (static_refresh srt g s)) (s_right (static_refresh srt g s))
        (s_head (static_refresh srt g s) n) (T n)"
      unfolding T_def by (rule static_refresh_tree [OF assms])
  next
    fix n x assume "n \<in> set (nodes g)" "x \<in> set_tree (T n)"
    then show "valid_arc g x" by (rule val)
  qed
  define st' where "st' = (static_refresh srt g st)\<lparr>s_next := ovr (s_next (static_refresh srt g st)) M\<rparr>"
  have 1: "AllArcLookUp srt g st = Some (Inr st')" by (simp add: AllArcLookUp_def run st'_def)
  have s: "static_refresh srt g st' = st'" by (simp add: st'_def w ovr_idem)
  have "AllArcLookUp srt g st' = Some (Inr (st'\<lparr>s_next := ovr (s_next st') M\<rparr>))"
    using run [of st'] by (simp add: AllArcLookUp_def s)
  also have "st'\<lparr>s_next := ovr (s_next st') M\<rparr> = st'" by (simp add: st'_def w ovr_idem)
  finally show ?thesis using 1 by blast
qed


text \<open>
  C8.  A full rebuild only writes values computed from the graph, so a second rebuild
  leaves the state as the first one left it, and every later look-up answers as it would
  have after the first: for \<^verbatim>\<open>ArcLookUp::refresh\<close>, for \<^verbatim>\<open>DynArcLookUp::refresh\<close> and
  \<^verbatim>\<open>build\<close> and the constructor, and for the rebuild of \<^verbatim>\<open>AllArcLookUp\<close> as its constructor
  runs it, which also returns.  (The member \<^verbatim>\<open>AllArcLookUp::refresh()\<close> itself passes the
  arc \<^verbatim>\<open>_head[n]\<close> to \<^verbatim>\<open>refresh(Node)\<close> and cannot be instantiated, so no program calls it.)
  The graph lists every arc once, \<^verbatim>\<open>std::sort\<close> returns a permutation, and no node has
  more than \<open>2 ^ 30\<close> outgoing arcs.
\<close>

theorem refresh_twice:
  assumes "wf_graph g" "permutes srt" "fits_int g"
  shows "static_refresh srt g (static_refresh srt g (st :: 'z static_state_scheme)) =
           static_refresh srt g st \<and>
         dyn_refresh srt g (dyn_refresh srt g dst) = dyn_refresh srt g dst \<and>
         build srt g (build srt g dst) = build srt g dst \<and>
         DynArcLookUp srt g (DynArcLookUp srt g dst) = DynArcLookUp srt g dst \<and>
         (\<exists>ast'. AllArcLookUp srt g ast = Some (Inr ast') \<and>
                 AllArcLookUp srt g ast' = Some (Inr ast'))"
  using AllArcLookUp_twice [OF assms, of ast]
  by (simp add: static_refresh_idem [OF assms(3,2)] dyn_refresh_idem [OF assms(3,2)]
      DynArcLookUp_idem [OF assms(3,2)] build_def)


theorem refresh_twice_witness:
  "wf_graph (fan 3) \<and> permutes (sort_by_target (fan 3)) \<and> fits_int (fan 3) \<and>
   static_refresh (sort_by_target (fan 3)) (fan 3)
       (static_refresh (sort_by_target (fan 3)) (fan 3) static_init) =
     static_refresh (sort_by_target (fan 3)) (fan 3) static_init \<and>
   dyn_refresh (sort_by_target (fan 3)) (fan 3)
       (dyn_refresh (sort_by_target (fan 3)) (fan 3) dyn_init) =
     dyn_refresh (sort_by_target (fan 3)) (fan 3) dyn_init \<and>
   build (sort_by_target (fan 3)) (fan 3) (build (sort_by_target (fan 3)) (fan 3) dyn_init) =
     build (sort_by_target (fan 3)) (fan 3) dyn_init \<and>
   DynArcLookUp (sort_by_target (fan 3)) (fan 3)
       (DynArcLookUp (sort_by_target (fan 3)) (fan 3) dyn_init) =
     DynArcLookUp (sort_by_target (fan 3)) (fan 3) dyn_init \<and>
   (\<exists>ast'. AllArcLookUp (sort_by_target (fan 3)) (fan 3) all_init = Some (Inr ast') \<and>
           AllArcLookUp (sort_by_target (fan 3)) (fan 3) ast' = Some (Inr ast'))"
proof -
  have p: "permutes (sort_by_target (fan 3))"
    by (simp add: permutes_def sort_by_target_def)
  show ?thesis
    using wf_fan p fits_int_fan
      refresh_twice [OF wf_fan p fits_int_fan, of static_init dyn_init all_init]
    by blast
qed

section \<open>Runs on concrete graphs\<close>

text \<open>The equations that evaluate the dynamic and the static index on a concrete graph.\<close>

lemmas dyn_eval =
  lookup_def findFirst_def DynArcLookUp_def dyn_refresh_def dyn_refresh_node_def
  dyn_refreshRec.simps lookup_loop.simps target_def valid_arc_def arcs_def splay_return_def
  splay_def splay_loop.simps splay_step_def zig_def zag_def source_def head_set_def
  parent_set_def left_set_def right_set_def Let_def fan_def dyn_init_def sort_by_target_def
  erase_def remove_def eraseArc_def replace_child_def rightmost.simps add_def addArc_def
  insert_arc_def insert_loop.simps returned_def int_max_def

lemmas static_eval =
  static_refresh_def static_refresh_node_def static_refreshRec.simps static_lookup_def
  static_lookup_loop.simps target_def valid_arc_def arcs_def Let_def sort_by_target_def
  AllArcLookUp_def refreshNext.simps all_lookup_def int_max_def

text \<open>
  C1.  The claim: a look-up returns an arc other than the sentinel exactly when an arc
  from \<open>s\<close> to \<open>t\<close> exists, for \<^verbatim>\<open>DynArcLookUp\<close> in the current graph.  The run below builds
  the dynamic index over the arcs \<open>0 \<rightarrow> 1\<close>, \<open>0 \<rightarrow> 2\<close>, \<open>0 \<rightarrow> 3\<close> and erases \<open>Arc 1\<close>
  (the root, whose left child has no right child) and then \<open>Arc 0\<close>.  The arc \<open>Arc 2\<close> from
  \<open>0\<close> to \<open>3\<close> is still in the graph, but the root table entry of node \<open>0\<close> is the erased
  \<open>Arc 0\<close>, and the look-up of \<open>(0, 3)\<close> asks the graph for the target of that erased arc.
  The look-up of \<open>(1, 3)\<close>, from a node without arcs, reads the target of \<^verbatim>\<open>INVALID\<close>.
\<close>

theorem dyn_lookup_after_erase_fails:
  "\<exists>g st. run (fan 3, DynArcLookUp (sort_by_target (fan 3)) (fan 3) dyn_init)
             [EraseArc (Arc 1), EraseArc (Arc 0)] = Some (Inr (g, st)) \<and>
     outArcs g 0 = [Arc 2] \<and> arc_source g (Arc 2) = 0 \<and> arc_target g (Arc 2) = 3 \<and>
     d_head st 0 = Arc 0 \<and>
     lookup g st 0 3 = Some (Inl InvalidArc) \<and>
     lookup g st 1 3 = Some (Inl InvalidArc)"
  by (simp add: dyn_eval upt_rec)

text \<open>
  C2.  The claim: after any sequence of add and erase notifications the arcs reachable
  from the root table entry of a node are exactly its outgoing arcs.  After the two
  erasures above the erased \<open>Arc 0\<close> is still the root of the tree of node \<open>0\<close>.
\<close>

theorem erased_arc_stays_in_tree:
  "\<exists>g st. run (fan 3, DynArcLookUp (sort_by_target (fan 3)) (fan 3) dyn_init)
             [EraseArc (Arc 1), EraseArc (Arc 0)] = Some (Inr (g, st)) \<and>
     set (outArcs g 0) = {Arc 2} \<and> Arc 0 \<in> tree_arcs st 0 \<and>
     tree_arcs st 0 \<noteq> set (outArcs g 0)"
proof -
  have "\<exists>g st. run (fan 3, DynArcLookUp (sort_by_target (fan 3)) (fan 3) dyn_init)
             [EraseArc (Arc 1), EraseArc (Arc 0)] = Some (Inr (g, st)) \<and>
     set (outArcs g 0) = {Arc 2} \<and> d_head st 0 = Arc 0"
    by (simp add: dyn_eval upt_rec)
  then obtain g st where r: "run (fan 3, DynArcLookUp (sort_by_target (fan 3)) (fan 3) dyn_init)
             [EraseArc (Arc 1), EraseArc (Arc 0)] = Some (Inr (g, st))"
    and o: "set (outArcs g 0) = {Arc 2}" and h: "d_head st 0 = Arc 0"
    by blast
  have "d_head st 0 \<in> tree_arcs st 0"
    by (rule tree_arcs.root) (simp add: h)
  then have m: "Arc 0 \<in> tree_arcs st 0"
    by (simp add: h)
  then have "tree_arcs st 0 \<noteq> set (outArcs g 0)"
    using o by auto
  with r o m show ?thesis by blast
qed

text \<open>
  C5.  The claim: parent and child maps agree after every operation.  The dynamic index
  over six arcs \<open>0 \<rightarrow> 1\<close>, ..., \<open>0 \<rightarrow> 6\<close> has \<open>Arc 2\<close> at the root, \<open>Arc 4\<close> as its right
  child and \<open>Arc 3\<close>, \<open>Arc 5\<close> below \<open>Arc 4\<close>.  Erasing \<open>Arc 4\<close> puts \<open>Arc 3\<close> into the
  right slot of \<open>Arc 2\<close>, but the recorded parent of \<open>Arc 3\<close> stays the erased \<open>Arc 4\<close>.
\<close>

theorem erase_leaves_stale_parent:
  "\<exists>g st. run (fan 6, DynArcLookUp (sort_by_target (fan 6)) (fan 6) dyn_init)
             [EraseArc (Arc 4)] = Some (Inr (g, st)) \<and>
     valid_arc g (Arc 2) \<and> valid_arc g (Arc 3) \<and> \<not> valid_arc g (Arc 4) \<and>
     d_right st (Arc 2) = Arc 3 \<and> d_left st (Arc 2) \<noteq> Arc 3 \<and> d_parent st (Arc 3) = Arc 4 \<and>
     \<not> parent_child_consistent g st"
  by (simp add: dyn_eval upt_rec parent_child_consistent_def)

text \<open>
  C7.  The claim: when no arc leads from \<open>s\<close> to \<open>t\<close>, \<^verbatim>\<open>operator()\<close> of \<^verbatim>\<open>DynArcLookUp\<close>
  returns the sentinel.  No arc of \<open>fan 3\<close> leaves node \<open>2\<close>; the look-up of \<open>(2, 0)\<close> does
  not return the sentinel but reads the target of \<^verbatim>\<open>INVALID\<close>.
\<close>

theorem dyn_lookup_absent_arc_no_sentinel:
  "list_all (\<lambda>a. \<not> (arc_source (fan 3) a = 2 \<and> arc_target (fan 3) a = 0)) (arcs (fan 3)) \<and>
   returned (lookup (fan 3) (DynArcLookUp (sort_by_target (fan 3)) (fan 3) dyn_init) 2 0)
     = Some (Inl InvalidArc)"
  by (simp add: dyn_eval upt_rec)

text \<open>
  C3.  The claim: the first query and the chained queries of \<^verbatim>\<open>AllArcLookUp\<close> yield
  each of the \<open>k\<close> parallel arcs once.  With three arcs from \<open>0\<close> to \<open>1\<close> the first query
  returns the root \<open>Arc 1\<close> of the tree, the chain leads on to \<open>Arc 2\<close> and ends there:
  \<open>Arc 0\<close>, in the left subtree of the root, is never returned.
\<close>

theorem all_lookup_skips_parallel_arc:
  "\<exists>st. AllArcLookUp (sort_by_target (parallel 3)) (parallel 3) all_init = Some (Inr st) \<and>
     outArcs (parallel 3) 0 = [Arc 0, Arc 1, Arc 2] \<and>
     list_all (\<lambda>a. arc_source (parallel 3) a = 0 \<and> arc_target (parallel 3) a = 1)
       (outArcs (parallel 3) 0) \<and>
     all_lookup (parallel 3) st 0 1 INVALID = Some (Inr (Arc 1)) \<and>
     all_lookup (parallel 3) st 0 1 (Arc 1) = Some (Inr (Arc 2)) \<and>
     all_lookup (parallel 3) st 0 1 (Arc 2) = Some (Inr INVALID)"
  by (simp add: static_eval parallel_def all_init_def upt_rec)

end
